theory Spec2Isabelle
  imports Complex_Main "HOL-Library.Sublist"
begin

section \<open>Exceptions\<close>

text \<open>
  The exceptions that the modelled code raises, catches or lets through. The first four are
  subclasses of \<open>requests.exceptions.RequestException\<close> (\<open>HTTPError\<close> is what
  \<open>Response.raise_for_status\<close> raises, with the status code); the next two are the Python
  builtins named in the retry decorator of \<open>make_request\<close>; \<open>RetryError\<close> is what
  the tenacity decorator raises when it gives up; the database exceptions are those of the
  persistence layer; \<open>OtherException\<close> stands for any other subclass of \<open>Exception\<close>.
\<close>

datatype exn =
    RequestsConnectionError
  | RequestsTimeout
  | HTTPError nat
  | OtherRequestException
  | BuiltinConnectionError
  | BuiltinTimeoutError
  | RetryError exn
  | OperationalError
  | IntegrityError
  | StaleDataError
  | OtherException

section \<open>The environment of one monitoring cycle\<close>

type_synonym bytes = string

record response =
  status_code :: nat
  headers :: "string \<rightharpoonup> string"
  content :: bytes

text \<open>What one call of \<open>requests.request\<close> does: it raises, or it returns a response.\<close>

datatype reply = Raises exn | Responds response

text \<open>
  Everything outside the repository that the code calls is a field of the environment:
  \<^item> \<open>web method url k\<close>: the reply of the network to the \<open>k\<close>-th attempt (counted from 1,
    as tenacity does) of a request for \<open>url\<close>. The user agent, the proxy and the timeout
    that the code passes on are not arguments of the model's network;
  \<^item> \<open>DEFAULT_CRAWL_DELAY\<close>: the setting of that name (seconds);
  \<^item> \<open>gunzip\<close>: \<open>gzip.decompress\<close>, \<open>None\<close> where it raises;
  \<^item> \<open>fromstring\<close>, \<open>tag\<close>, \<open>nsmap_default\<close>, \<open>xpath_elements\<close>, \<open>xpath_strings\<close>:
    lxml's \<open>etree.fromstring\<close> (\<open>None\<close> where it raises), \<open>root.tag\<close>,
    \<open>root.nsmap.get(None)\<close> and \<open>element.xpath(expr, namespaces={"s": ns})\<close> for an
    expression that selects elements or text nodes, over an element type \<open>'e\<close>;
  \<^item> \<open>urljoin\<close>: \<open>urllib.parse.urljoin\<close>;
  \<^item> \<open>clock k\<close>: the instant that the \<open>k\<close>-th call of \<open>utc_now()\<close> in the cycle returns;
  \<^item> \<open>db_ok k\<close>: whether the \<open>k\<close>-th round trip to the database in the cycle goes through
    (otherwise it raises \<open>OperationalError\<close>);
  \<^item> \<open>GITHUB_RUN_ID\<close>: the environment variable of that name.
\<close>

record 'e env =
  web :: "string \<Rightarrow> string \<Rightarrow> nat \<Rightarrow> reply"
  DEFAULT_CRAWL_DELAY :: real
  gunzip :: "bytes \<Rightarrow> bytes option"
  fromstring :: "bytes \<Rightarrow> 'e option"
  tag :: "'e \<Rightarrow> string"
  nsmap_default :: "'e \<Rightarrow> string option"
  xpath_elements :: "'e \<Rightarrow> string \<Rightarrow> string \<Rightarrow> 'e list"
  xpath_strings :: "'e \<Rightarrow> string \<Rightarrow> string \<Rightarrow> string list"
  urljoin :: "string \<Rightarrow> string \<Rightarrow> string"
  clock :: "nat \<Rightarrow> int"
  db_ok :: "nat \<Rightarrow> bool"
  GITHUB_RUN_ID :: "string option"

section \<open>\<open>make_request\<close> (app/utils/http.py)\<close>

text \<open>What a request does that the outside can see: it sleeps and it sends.\<close>

datatype event = Sleep real | Send string string

text \<open>
  The body of \<open>make_request\<close>, run once: the politeness delay, the request,
  \<open>raise_for_status\<close> (an \<open>HTTPError\<close> for a status from 400 to 599). The handler
  \<open>except RequestException as e: raise e\<close> logs and raises the same exception again.
\<close>

definition request_once ::
  "'e env \<Rightarrow> string \<Rightarrow> string \<Rightarrow> real option \<Rightarrow> nat \<Rightarrow> event list \<times> (exn + response)" where
  "request_once env method url delay k =
     ((case delay of
         Some d \<Rightarrow> [Sleep d]
       | None \<Rightarrow> if DEFAULT_CRAWL_DELAY env > 0 then [Sleep (DEFAULT_CRAWL_DELAY env)] else [])
      @ [Send method url],
      (case web env method url k of
         Raises e \<Rightarrow> Inl e
       | Responds r \<Rightarrow>
           if 400 \<le> status_code r \<and> status_code r < 600 then Inl (HTTPError (status_code r))
           else Inr r))"

text \<open>
  The decorator \<open>@retry(stop=stop_after_attempt(3), wait=wait_exponential(multiplier=1,
  min=2, max=10), retry=retry_if_exception_type((RequestException, ConnectionError,
  TimeoutError)))\<close>, with the meaning tenacity gives it: an exception of one of the three
  types is retried after the wait, unless the attempt was the third, where \<open>RetryError\<close> is
  raised; any other exception goes through at once.
\<close>

definition retry_if_exception_type :: "exn \<Rightarrow> bool" where
  "retry_if_exception_type e =
     (case e of
        RequestsConnectionError \<Rightarrow> True
      | RequestsTimeout \<Rightarrow> True
      | HTTPError _ \<Rightarrow> True
      | OtherRequestException \<Rightarrow> True
      | BuiltinConnectionError \<Rightarrow> True
      | BuiltinTimeoutError \<Rightarrow> True
      | _ \<Rightarrow> False)"

definition stop_after_attempt :: "nat \<Rightarrow> nat \<Rightarrow> bool" where
  "stop_after_attempt max_attempt_number attempt_number = (attempt_number \<ge> max_attempt_number)"

definition wait_exponential :: "real \<Rightarrow> real \<Rightarrow> real \<Rightarrow> nat \<Rightarrow> real" where
  "wait_exponential multiplier mn mx attempt_number =
     max (max 0 mn) (min (multiplier * 2 ^ (attempt_number - 1)) mx)"

function retrying ::
  "'e env \<Rightarrow> string \<Rightarrow> string \<Rightarrow> real option \<Rightarrow> nat \<Rightarrow> event list \<times> (exn + response)" where
  "retrying env method url delay k =
     (case request_once env method url delay k of
        (evs, Inr r) \<Rightarrow> (evs, Inr r)
      | (evs, Inl e) \<Rightarrow>
          if \<not> retry_if_exception_type e then (evs, Inl e)
          else if stop_after_attempt 3 k then (evs, Inl (RetryError e))
          else (case retrying env method url delay (Suc k) of
                  (evs', res) \<Rightarrow> (evs @ [Sleep (wait_exponential 1 2 10 k)] @ evs', res)))"
  by pat_completeness auto
termination
  by (relation "measure (\<lambda>(env, method, url, delay, k). 3 - k)")
     (auto simp: stop_after_attempt_def)

declare retrying.simps [simp del]

definition make_request ::
  "'e env \<Rightarrow> string \<Rightarrow> string \<Rightarrow> real option \<Rightarrow> event list \<times> (exn + response)" where
  "make_request env method url delay = retrying env method url delay 1"

section \<open>The sitemap parser (app/scrapers/sitemap/parser.py)\<close>

record entry =
  url :: string
  lastmod :: "string option"

text \<open>\<open>str.strip()\<close>, on the ASCII white space.\<close>

definition is_space :: "char \<Rightarrow> bool" where
  "is_space c = (c \<in> set [CHR '' '', CHR 0x09, CHR 0x0A, CHR 0x0B, CHR 0x0C, CHR 0x0D,
                            CHR 0x1C, CHR 0x1D, CHR 0x1E, CHR 0x1F])"

definition strip :: "string \<Rightarrow> string" where
  "strip s = rev (dropWhile is_space (rev (dropWhile is_space s)))"

text \<open>
  \<open>fetch_sitemap\<close>: the content of the response, decompressed when the content type or the
  suffix of the URL says gzip; \<open>None\<close> when the request or the decompression raised.
\<close>

definition fetch_sitemap :: "'e env \<Rightarrow> string \<Rightarrow> bytes option" where
  "fetch_sitemap env sitemap_url =
     (case snd (make_request env ''GET'' sitemap_url None) of
        Inl e \<Rightarrow> None
      | Inr r \<Rightarrow>
          if headers r ''Content-Type'' = Some ''application/x-gzip'' \<or> suffix ''.gz'' sitemap_url
          then (case gunzip env (content r) of None \<Rightarrow> None | Some d \<Rightarrow> Some d)
          else Some (content r))"

definition default_ns :: string where
  "default_ns = ''http://www.sitemaps.org/schemas/sitemap/0.9''"

definition parse_sitemap_index :: "'e env \<Rightarrow> bytes \<Rightarrow> string \<Rightarrow> string list" where
  "parse_sitemap_index env c base =
     (case fromstring env c of
        None \<Rightarrow> []
      | Some doc \<Rightarrow>
          (let ns = (case nsmap_default env doc of Some n \<Rightarrow> n | None \<Rightarrow> default_ns)
           in map (\<lambda>sitemap.
                     let sitemap_url = strip sitemap
                     in if \<not> (prefix ''http://'' sitemap_url \<or> prefix ''https://'' sitemap_url)
                        then urljoin env base sitemap_url else sitemap_url)
                  (xpath_strings env doc ''//s:sitemap/s:loc/text()'' ns)))"

definition parse_sitemap :: "'e env \<Rightarrow> bytes \<Rightarrow> entry list" where
  "parse_sitemap env c =
     (case fromstring env c of
        None \<Rightarrow> []
      | Some doc \<Rightarrow>
          (let ns = (case nsmap_default env doc of Some n \<Rightarrow> n | None \<Rightarrow> default_ns)
           in concat (map (\<lambda>u.
                 let loc = xpath_strings env u ''s:loc/text()'' ns;
                     lm = xpath_strings env u ''s:lastmod/text()'' ns
                 in (case loc of
                       [] \<Rightarrow> []
                     | l # _ \<Rightarrow>
                         [\<lparr>url = strip l,
                           lastmod = (case lm of [] \<Rightarrow> None | m # _ \<Rightarrow> Some (strip m))\<rparr>]))
               (xpath_elements env doc ''//s:url'' ns))))"

definition is_sitemap_index :: "'e env \<Rightarrow> bytes \<Rightarrow> bool" where
  "is_sitemap_index env c =
     (case fromstring env c of
        None \<Rightarrow> False
      | Some doc \<Rightarrow> suffix ''sitemapindex'' (tag env doc))"

text \<open>
  The state of the walk: the two variables that \<open>process_sitemap\<close> closes over, and the
  sequence of URLs handed to \<open>fetch_sitemap\<close> so far (the requests that the walk has sent
  are an effect of it).
\<close>

record walk =
  processed_sitemaps :: "string set"
  all_urls :: "entry list"
  fetched :: "string list"

text \<open>
  The inner function \<open>process_sitemap\<close>. The first argument bounds the depth of the
  recursion; \<open>None\<close> says that the bound was reached, that is, the walk did not return
  within it.
\<close>

primrec process_sitemap :: "nat \<Rightarrow> 'e env \<Rightarrow> string \<Rightarrow> string \<Rightarrow> walk \<Rightarrow> walk option" where
  "process_sitemap 0 env base u st = None"
| "process_sitemap (Suc n) env base u st =
     (if u \<in> processed_sitemaps st then Some st
      else
        (let st1 = st\<lparr>processed_sitemaps := insert u (processed_sitemaps st),
                      fetched := fetched st @ [u]\<rparr>
         in (case fetch_sitemap env u of
               None \<Rightarrow> Some st1
             | Some c \<Rightarrow>
                 if c = [] then Some st1
                 else if is_sitemap_index env c
                 then fold (\<lambda>child_url r.
                              case r of None \<Rightarrow> None
                              | Some s \<Rightarrow> process_sitemap n env base child_url s)
                           (parse_sitemap_index env c base) (Some st1)
                 else Some (st1\<lparr>all_urls := all_urls st1 @ parse_sitemap env c\<rparr>))))"

definition walk_from :: "nat \<Rightarrow> 'e env \<Rightarrow> string \<Rightarrow> string \<Rightarrow> walk option" where
  "walk_from n env sitemap_url base =
     process_sitemap n env base sitemap_url
       \<lparr>processed_sitemaps = {}, all_urls = [], fetched = []\<rparr>"

definition fetch_and_parse_sitemap ::
  "nat \<Rightarrow> 'e env \<Rightarrow> string \<Rightarrow> string \<Rightarrow> (entry list \<times> string set) option" where
  "fetch_and_parse_sitemap n env sitemap_url base =
     map_option (\<lambda>st. (all_urls st, processed_sitemaps st)) (walk_from n env sitemap_url base)"

definition extract_urls_from_sitemap ::
  "nat \<Rightarrow> 'e env \<Rightarrow> string \<Rightarrow> string \<Rightarrow> entry list option" where
  "extract_urls_from_sitemap n env sitemap_url base =
     map_option fst (fetch_and_parse_sitemap n env sitemap_url base)"

text \<open>
  What a sitemap URL refers to and what it contributes, read off the three branches of
  \<open>process_sitemap\<close> after the fetch: the child references of a fetched index, the
  entries of a fetched leaf, and nothing where the fetch gave no content.
\<close>

definition child_sitemaps :: "'e env \<Rightarrow> string \<Rightarrow> string \<Rightarrow> string list" where
  "child_sitemaps env base u =
     (case fetch_sitemap env u of
        None \<Rightarrow> []
      | Some c \<Rightarrow> if c \<noteq> [] \<and> is_sitemap_index env c then parse_sitemap_index env c base else [])"

definition leaf_entries :: "'e env \<Rightarrow> string \<Rightarrow> entry list" where
  "leaf_entries env u =
     (case fetch_sitemap env u of
        None \<Rightarrow> []
      | Some c \<Rightarrow> if c = [] \<or> is_sitemap_index env c then [] else parse_sitemap env c)"

text \<open>
  \<open>extends env base st st' new\<close>: the walk went from \<open>st\<close> to \<open>st'\<close> by fetching the URLs
  \<open>new\<close>, in this order, each once and none of them visited before; the entries added
  are those of the new nodes, and every reference of a new node has been visited.
\<close>

definition extends :: "'e env \<Rightarrow> string \<Rightarrow> walk \<Rightarrow> walk \<Rightarrow> string list \<Rightarrow> bool" where
  "extends env base st st' new \<longleftrightarrow>
     fetched st' = fetched st @ new \<and>
     distinct new \<and>
     set new \<inter> processed_sitemaps st = {} \<and>
     processed_sitemaps st' = processed_sitemaps st \<union> set new \<and>
     all_urls st' = all_urls st @ concat (map (leaf_entries env) new) \<and>
     (\<forall>v\<in>set new. set (child_sitemaps env base v) \<subseteq> processed_sitemaps st')"

section \<open>The persisted data (app/models/site.py)\<close>

text \<open>
  The three tables. Instants are integers. The key and the time stamps that the base class
  gives every row (\<open>id\<close>, \<open>created_at\<close>, \<open>updated_at\<close>) are left out, except the key of a
  site, which the crawler reads; so are the columns of a site that only set the headers
  and the proxy of a request (\<open>user_agent\<close>, \<open>proxy_config_json\<close>) and the ones that the
  crawler never reads.
\<close>

record monitored_site =
  site_id :: int
  site_name :: string
  base_url :: string
  monitoring_type :: string
  sitemap_url :: "string option"
  is_enabled :: int
  is_notification_enabled :: int
  last_crawled_at :: "int option"

record discovered_page =
  monitored_site_id :: int
  page_url :: string
  page_title :: "string option"
  first_discovered_at :: int
  last_seen_at :: int
  is_processed :: int

text \<open>
  The texts that the crawler writes, by their parts: \<open>Found_new_pages n\<close> is the log
  message of a successful cycle and \<open>Processing_failed e\<close> the one of a failed cycle, which
  ends in \<open>str(e)\<close>; \<open>Config_load_failed\<close>, \<open>Success_found n\<close> and \<open>Failed e\<close> are the
  three messages that \<open>process_site\<close> returns.
\<close>

datatype log_message = Found_new_pages nat | Processing_failed exn

datatype return_message = Config_load_failed | Success_found nat | Failed exn

record crawl_log =
  log_site_id :: int
  run_id :: "string option"
  start_time :: int
  end_time :: int
  status :: string
  pages_found_count :: nat
  message :: "log_message option"

text \<open>
  The database: sites by key, pages by site and URL (the unique constraint
  \<open>uix_site_url\<close> of the pages table), the log rows in the order they were written.
\<close>

record database =
  sites :: "int \<rightharpoonup> monitored_site"
  pages :: "int \<times> string \<rightharpoonup> discovered_page"
  logs :: "crawl_log list"

section \<open>Sessions and transactions (app/database/connection.py)\<close>

text \<open>
  What a session has been given with \<open>session.add\<close> and not yet committed: a new page, a
  new \<open>last_seen_at\<close> of the page of a site and URL, a new \<open>last_crawled_at\<close> of a site,
  a new log row.
\<close>

datatype change =
    Add_page discovered_page
  | Set_last_seen int string int
  | Set_last_crawled int int
  | Add_log crawl_log

record session =
  pending :: "change list"
  in_transaction :: bool

datatype notification =
    New_pages_notification monitored_site "discovered_page list"
  | Error_notification monitored_site exn

text \<open>
  The state that a cycle works on: the committed database, the session that the running
  code holds, how often the clock has been read and the database been called, the page
  lookups of the diff in the order they were issued, and the notifications handed to the
  notifier.
\<close>

record world =
  db :: database
  sess :: session
  ticks :: nat
  round_trips :: nat
  looked_up :: "string list"
  notifications :: "notification list"

definition fresh_session :: session where
  "fresh_session = \<lparr>pending = [], in_transaction = False\<rparr>"

definition then_do ::
  "(world \<Rightarrow> (exn + 'a) \<times> world) \<Rightarrow> ('a \<Rightarrow> world \<Rightarrow> (exn + 'b) \<times> world) \<Rightarrow>
   world \<Rightarrow> (exn + 'b) \<times> world" where
  "then_do m f w = (case m w of (Inl e, w') \<Rightarrow> (Inl e, w') | (Inr a, w') \<Rightarrow> f a w')"

definition utc_now :: "'e env \<Rightarrow> world \<Rightarrow> int \<times> world" where
  "utc_now env w = (clock env (ticks w), w\<lparr>ticks := Suc (ticks w)\<rparr>)"

definition round_trip :: "'e env \<Rightarrow> world \<Rightarrow> (exn + unit) \<times> world" where
  "round_trip env w =
     (if db_ok env (round_trips w) then Inr () else Inl OperationalError,
      w\<lparr>round_trips := Suc (round_trips w)\<rparr>)"

text \<open>A query: a round trip inside the transaction of the session.\<close>

definition query :: "'e env \<Rightarrow> world \<Rightarrow> (exn + unit) \<times> world" where
  "query env w =
     then_do (round_trip env)
       (\<lambda>_ w'. (Inr (), w'\<lparr>sess := (sess w')\<lparr>in_transaction := True\<rparr>\<rparr>)) w"

definition add :: "change \<Rightarrow> world \<Rightarrow> world" where
  "add c w = w\<lparr>sess := (sess w)\<lparr>pending := pending (sess w) @ [c]\<rparr>\<rparr>"

text \<open>
  One change on the database. A second page of the same site and URL breaks the unique
  constraint; an update of a row that is not there fails.
\<close>

fun apply_change :: "change \<Rightarrow> database \<Rightarrow> exn + database" where
  "apply_change (Add_page p) d =
     (if pages d (monitored_site_id p, page_url p) \<noteq> None then Inl IntegrityError
      else Inr (d\<lparr>pages := (pages d)((monitored_site_id p, page_url p) \<mapsto> p)\<rparr>))"
| "apply_change (Set_last_seen sid u t) d =
     (case pages d (sid, u) of
        None \<Rightarrow> Inl StaleDataError
      | Some p \<Rightarrow> Inr (d\<lparr>pages := (pages d)((sid, u) \<mapsto> p\<lparr>last_seen_at := t\<rparr>)\<rparr>))"
| "apply_change (Set_last_crawled sid t) d =
     (case sites d sid of
        None \<Rightarrow> Inl StaleDataError
      | Some s \<Rightarrow> Inr (d\<lparr>sites := (sites d)(sid \<mapsto> s\<lparr>last_crawled_at := Some t\<rparr>)\<rparr>))"
| "apply_change (Add_log l) d = Inr (d\<lparr>logs := logs d @ [l]\<rparr>)"

fun apply_changes :: "change list \<Rightarrow> database \<Rightarrow> exn + database" where
  "apply_changes [] d = Inr d"
| "apply_changes (c # cs) d =
     (case apply_change c d of Inl e \<Rightarrow> Inl e | Inr d' \<Rightarrow> apply_changes cs d')"

text \<open>
  \<open>session.commit()\<close>: one transaction. With nothing added and no transaction open there
  is nothing to send. Otherwise the pending changes are written together in one round
  trip: all of them, or, when the round trip or one of the changes fails, none, and the
  session is rolled back.
\<close>

definition commit :: "'e env \<Rightarrow> world \<Rightarrow> (exn + unit) \<times> world" where
  "commit env w =
     (if pending (sess w) = [] \<and> \<not> in_transaction (sess w) then (Inr (), w)
      else (case round_trip env w of
              (Inl e, w') \<Rightarrow> (Inl e, w'\<lparr>sess := fresh_session\<rparr>)
            | (Inr _, w') \<Rightarrow>
                (case apply_changes (pending (sess w')) (db w') of
                   Inl e \<Rightarrow> (Inl e, w'\<lparr>sess := fresh_session\<rparr>)
                 | Inr d \<Rightarrow> (Inr (), w'\<lparr>db := d, sess := fresh_session\<rparr>))))"

section \<open>The notifier (app/notifiers/feishu.py)\<close>

text \<open>
  The crawler drops what the two calls return, and \<open>send_message\<close> catches what the
  delivery raises: the model keeps the notifications that were handed over.
\<close>

definition send_new_pages_notification ::
  "monitored_site \<Rightarrow> discovered_page list \<Rightarrow> world \<Rightarrow> world" where
  "send_new_pages_notification site new_pages w =
     (if new_pages = [] then w
      else w\<lparr>notifications := notifications w @ [New_pages_notification site new_pages]\<rparr>)"

definition send_error_notification :: "monitored_site \<Rightarrow> exn \<Rightarrow> world \<Rightarrow> world" where
  "send_error_notification site e w =
     w\<lparr>notifications := notifications w @ [Error_notification site e]\<rparr>"

section \<open>The crawler (app/scrapers/sitemap/crawler.py)\<close>

text \<open>
  \<open>load_site_config\<close>: in a session of its own, the enabled site of the given key, if it
  is monitored by sitemap and has a sitemap URL. Leaving the \<open>with\<close> block commits.
\<close>

definition load_site_config :: "'e env \<Rightarrow> int \<Rightarrow> world \<Rightarrow> (exn + monitored_site option) \<times> world" where
  "load_site_config env self_site_id w =
     then_do (query env)
       (\<lambda>_ w1.
          let r = (case sites (db w1) self_site_id of
                     None \<Rightarrow> None
                   | Some site \<Rightarrow>
                       if site_id site \<noteq> self_site_id \<or> is_enabled site \<noteq> 1 then None
                       else if monitoring_type site \<noteq> ''sitemap'' then None
                       else if sitemap_url site = None \<or> sitemap_url site = Some [] then None
                       else Some site)
          in then_do (commit env) (\<lambda>_ w2. (Inr r, w2)) w1)
       (w\<lparr>sess := fresh_session\<rparr>)"

text \<open>\<open>get_existing_urls\<close>: one query; the dictionary from the URLs of the site's pages
  to their \<open>last_seen_at\<close>.\<close>

definition get_existing_urls :: "'e env \<Rightarrow> int \<Rightarrow> world \<Rightarrow> (exn + (string \<rightharpoonup> int)) \<times> world" where
  "get_existing_urls env sid w =
     then_do (query env)
       (\<lambda>_ w1. (Inr (\<lambda>u. map_option last_seen_at (pages (db w1) (sid, u))), w1)) w"

text \<open>The query of the diff loop for the page of a site and URL (\<open>.first()\<close>).\<close>

definition first_page :: "'e env \<Rightarrow> int \<Rightarrow> string \<Rightarrow> world \<Rightarrow> (exn + discovered_page option) \<times> world" where
  "first_page env sid u w =
     then_do (query env)
       (\<lambda>_ w1. (Inr (pages (db w1) (sid, u)), w1))
       (w\<lparr>looked_up := looked_up w @ [u]\<rparr>)"

text \<open>
  The loop over the sitemap entries (lines 257 to 293). A URL that is a key of
  \<open>existing_urls\<close> is looked up and, if the page is there, gets a new \<open>last_seen_at\<close>; any
  other URL becomes a new page, added to the session and to \<open>new_pages\<close>. The loop also
  parses \<open>lastmod\<close>, and does not use the result.
\<close>

fun diff_entries ::
  "'e env \<Rightarrow> monitored_site \<Rightarrow> (string \<rightharpoonup> int) \<Rightarrow> entry list \<Rightarrow> discovered_page list \<Rightarrow>
   world \<Rightarrow> (exn + discovered_page list) \<times> world" where
  "diff_entries env site existing_urls [] new_pages w = (Inr new_pages, w)"
| "diff_entries env site existing_urls (e # es) new_pages w =
     (if existing_urls (url e) \<noteq> None
      then (case first_page env (site_id site) (url e) w of
              (Inl x, w1) \<Rightarrow> (Inl x, w1)
            | (Inr None, w1) \<Rightarrow> diff_entries env site existing_urls es new_pages w1
            | (Inr (Some page), w1) \<Rightarrow>
                (case utc_now env w1 of
                   (t, w2) \<Rightarrow>
                     diff_entries env site existing_urls es new_pages
                       (add (Set_last_seen (site_id site) (url e) t) w2)))
      else (case utc_now env w of
              (t1, w1) \<Rightarrow>
                (case utc_now env w1 of
                   (t2, w2) \<Rightarrow>
                     (let page = \<lparr>monitored_site_id = site_id site, page_url = url e,
                                  page_title = None, first_discovered_at = t1,
                                  last_seen_at = t2, is_processed = 0\<rparr>
                      in diff_entries env site existing_urls es (new_pages @ [page])
                           (add (Add_page page) w2)))))"

definition update_site_last_crawled :: "'e env \<Rightarrow> monitored_site \<Rightarrow> world \<Rightarrow> (exn + unit) \<times> world" where
  "update_site_last_crawled env site w =
     (case utc_now env w of
        (t, w1) \<Rightarrow> commit env (add (Set_last_crawled (site_id site) t) w1))"

definition create_crawl_log ::
  "'e env \<Rightarrow> int \<Rightarrow> monitored_site \<Rightarrow> string \<Rightarrow> nat \<Rightarrow> log_message option \<Rightarrow> world \<Rightarrow>
   (exn + crawl_log) \<times> world" where
  "create_crawl_log env self_start_time site st n msg w =
     (case utc_now env w of
        (t, w1) \<Rightarrow>
          (let log = \<lparr>log_site_id = site_id site, run_id = GITHUB_RUN_ID env,
                      start_time = self_start_time, end_time = t, status = st,
                      pages_found_count = n, message = msg\<rparr>
           in then_do (commit env) (\<lambda>_ w2. (Inr log, w2)) (add (Add_log log) w1)))"

text \<open>
  Lines 298 to 310: the commit of the pages (both branches of the \<open>if\<close> commit), then
  \<open>update_site_last_crawled\<close>, which commits again.
\<close>

definition commit_cycle :: "'e env \<Rightarrow> monitored_site \<Rightarrow> world \<Rightarrow> (exn + unit) \<times> world" where
  "commit_cycle env site w =
     then_do (commit env) (\<lambda>_. update_site_last_crawled env site) w"

text \<open>Lines 251 to 325: from the diff to the \<open>return\<close> of the \<open>try\<close> block.\<close>

definition diff_and_commit ::
  "'e env \<Rightarrow> int \<Rightarrow> monitored_site \<Rightarrow> (string \<rightharpoonup> int) \<Rightarrow> entry list \<Rightarrow> world \<Rightarrow>
   (exn + bool \<times> return_message \<times> nat) \<times> world" where
  "diff_and_commit env self_start_time site existing_urls sitemap_entries w =
     then_do (diff_entries env site existing_urls sitemap_entries [])
       (\<lambda>new_pages.
          then_do (commit_cycle env site)
            (\<lambda>_. then_do
                    (create_crawl_log env self_start_time site ''success'' (length new_pages)
                       (Some (Found_new_pages (length new_pages))))
                    (\<lambda>_ w5.
                       (Inr (True, Success_found (length new_pages), length new_pages),
                        if new_pages \<noteq> [] \<and> is_notification_enabled site \<noteq> 0
                        then send_new_pages_notification site new_pages w5 else w5)))) w"

text \<open>
  The entries of the site's sitemap. A site without a sitemap URL gives a request that
  fails for its URL, hence no entries. \<open>None\<close>: the walk did not return within the bound.
\<close>

definition site_entries :: "nat \<Rightarrow> 'e env \<Rightarrow> monitored_site \<Rightarrow> entry list option" where
  "site_entries n env site =
     (case sitemap_url site of
        None \<Rightarrow> Some []
      | Some u \<Rightarrow> extract_urls_from_sitemap n env u (base_url site))"

text \<open>
  Lines 230 to 329, the \<open>try\<close> block with its \<open>finally\<close>: the session of the caller or a
  new one, the existing URLs, the walk, the diff and the commits; a session that was opened
  here is left (and committed) at the end, also when the block raised.
\<close>

definition try_block ::
  "nat \<Rightarrow> 'e env \<Rightarrow> int \<Rightarrow> monitored_site \<Rightarrow> session option \<Rightarrow> world \<Rightarrow>
   ((exn + bool \<times> return_message \<times> nat) \<times> world) option" where
  "try_block n env self_start_time site session w =
     (let new_session = (session = None);
          w0 = w\<lparr>sess := (case session of None \<Rightarrow> fresh_session | Some s \<Rightarrow> s)\<rparr>;
          leave = (\<lambda>(r, w'). if new_session
                              then (case commit env w' of
                                      (Inl x, w'') \<Rightarrow> (Inl x, w'')
                                    | (Inr _, w'') \<Rightarrow> (r, w''))
                              else (r, w'))
      in (case get_existing_urls env (site_id site) w0 of
            (Inl x, w1) \<Rightarrow> Some (leave (Inl x, w1))
          | (Inr existing_urls, w1) \<Rightarrow>
              (case site_entries n env site of
                 None \<Rightarrow> None
               | Some sitemap_entries \<Rightarrow>
                   Some (leave (diff_and_commit env self_start_time site existing_urls
                                  sitemap_entries w1)))))"

text \<open>
  Lines 331 to 354, the handler of \<open>except Exception as e\<close>: in a new session, the log row
  of the failed cycle, then the error notification if the site has notifications enabled,
  then the return value. Nothing in the handler catches what these steps raise.
\<close>

definition except_branch ::
  "'e env \<Rightarrow> int \<Rightarrow> monitored_site \<Rightarrow> exn \<Rightarrow> world \<Rightarrow>
   (exn + bool \<times> return_message \<times> nat) \<times> world" where
  "except_branch env self_start_time site e w =
     then_do (create_crawl_log env self_start_time site ''failed'' 0 (Some (Processing_failed e)))
       (\<lambda>_ w1.
          let w2 = (if is_notification_enabled site \<noteq> 0
                    then send_error_notification site e w1 else w1)
          in then_do (commit env) (\<lambda>_ w3. (Inr (False, Failed e, 0), w3)) w2)
       (w\<lparr>sess := fresh_session\<rparr>)"

text \<open>
  \<open>process_site\<close>. The first argument bounds the depth of the sitemap walk; the third is
  \<open>self.site_id\<close>. The result is what the call returns or the exception that leaves it,
  with the state it leaves behind; \<open>None\<close> when the walk did not return within the bound.
  Lines 211 to 228 choose the user agent, the proxy and the timeout of the requests, which
  the model's network does not depend on.
\<close>

definition process_site ::
  "nat \<Rightarrow> 'e env \<Rightarrow> int \<Rightarrow> session option \<Rightarrow> monitored_site option \<Rightarrow> world \<Rightarrow>
   ((exn + bool \<times> return_message \<times> nat) \<times> world) option" where
  "process_site n env self_site_id session site w =
     (case utc_now env w of
        (self_start_time, w1) \<Rightarrow>
          (case (if session = None \<or> site = None then load_site_config env self_site_id w1
                 else (Inr site, w1)) of
             (Inl x, w2) \<Rightarrow> Some (Inl x, w2)
           | (Inr None, w2) \<Rightarrow> Some (Inr (False, Config_load_failed, 0), w2)
           | (Inr (Some the_site), w2) \<Rightarrow>
               (case try_block n env self_start_time the_site session w2 of
                  None \<Rightarrow> None
                | Some (Inr result, w3) \<Rightarrow> Some (Inr result, w3)
                | Some (Inl e, w3) \<Rightarrow> Some (except_branch env self_start_time the_site e w3))))"

section \<open>Notions for stating the claims\<close>

text \<open>
  The two classes of the partition law: the entries whose URL is not a key of the existing
  URLs, and the entries whose URL is one.
\<close>

definition spec_new :: "(string \<rightharpoonup> int) \<Rightarrow> entry list \<Rightarrow> entry list" where
  "spec_new S E = filter (\<lambda>e. url e \<notin> dom S) E"

definition spec_reseen :: "(string \<rightharpoonup> int) \<Rightarrow> entry list \<Rightarrow> entry list" where
  "spec_reseen S E = filter (\<lambda>e. url e \<in> dom S) E"

text \<open>The pages among the changes that a session holds.\<close>

definition added_pages :: "change list \<Rightarrow> discovered_page list" where
  "added_pages cs = concat (map (\<lambda>c. case c of Add_page p \<Rightarrow> [p] | _ \<Rightarrow> []) cs)"

text \<open>
  A page as the diff creates it for a site: no title, not processed, and its two instants
  two successive readings of the clock, the first of them reading number \<open>lo\<close> or later
  and both before reading number \<open>hi\<close>.
\<close>

definition created_page :: "'e env \<Rightarrow> monitored_site \<Rightarrow> nat \<Rightarrow> nat \<Rightarrow> discovered_page \<Rightarrow> bool" where
  "created_page env site lo hi p \<longleftrightarrow>
     page_title p = None \<and> is_processed p = 0 \<and> monitored_site_id p = site_id site \<and>
     (\<exists>k. lo \<le> k \<and> Suc k < hi \<and>
          first_discovered_at p = clock env k \<and> last_seen_at p = clock env (Suc k))"

text \<open>
  A change as the diff adds it to the session: a page of the site for a URL that is not a
  key of the existing URLs, or a \<open>last_seen_at\<close> for a URL that is one, read from the
  clock between reading number \<open>lo\<close> and reading number \<open>hi\<close>.
\<close>

definition staged_by_diff ::
  "'e env \<Rightarrow> monitored_site \<Rightarrow> (string \<rightharpoonup> int) \<Rightarrow> nat \<Rightarrow> nat \<Rightarrow> change \<Rightarrow> bool" where
  "staged_by_diff env site S lo hi c =
     (case c of
        Add_page p \<Rightarrow> page_url p \<notin> dom S \<and> monitored_site_id p = site_id site
      | Set_last_seen s u t \<Rightarrow>
          s = site_id site \<and> u \<in> dom S \<and> (\<exists>k. lo \<le> k \<and> k < hi \<and> t = clock env k)
      | _ \<Rightarrow> False)"


text \<open>
  One run of the diff on given entries, as the \<open>try\<close> block of \<open>process_site\<close> does it in
  a session without pending changes: the existing URLs, then the loop and the commits.
  The result keeps the pages that the loop found new.
\<close>

definition run_diff ::
  "'e env \<Rightarrow> monitored_site \<Rightarrow> entry list \<Rightarrow> world \<Rightarrow>
   (exn + discovered_page list) \<times> world" where
  "run_diff env site sitemap_entries w =
     then_do (get_existing_urls env (site_id site))
       (\<lambda>existing_urls.
          then_do (diff_entries env site existing_urls sitemap_entries [])
            (\<lambda>new_pages. then_do (commit_cycle env site) (\<lambda>_ w'. (Inr new_pages, w'))))
       (w\<lparr>sess := fresh_session\<rparr>)"

section \<open>A small web and a small database\<close>

text \<open>
  A site for trying the definitions on. Its sitemap \<open>i\<close> is an index that refers to
  itself, to \<open>b\<close> (always status 404), to the leaf \<open>a\<close> (two timeouts, then the document,
  with the pages \<open>1\<close> and \<open>2\<close>), to \<open>c.gz\<close> (not gzip) and to \<open>d.gz\<close> (gzip of a leaf with
  the page \<open>3\<close>). A request for \<open>e\<close> raises an exception that is no request exception.
  Documents are named by their bytes; an element of a leaf is its URL. The argument of
  \<open>example_env\<close> says which round trips to the database go through.
\<close>

definition ok_response :: "bytes \<Rightarrow> reply" where
  "ok_response c = Responds \<lparr>status_code = 200, headers = Map.empty, content = c\<rparr>"

definition example_web :: "string \<Rightarrow> string \<Rightarrow> nat \<Rightarrow> reply" where
  "example_web method u k =
     (if u = ''http://x/i'' then ok_response ''INDEX''
      else if u = ''http://x/a'' then (if k < 3 then Raises RequestsTimeout else ok_response ''LEAF'')
      else if u = ''http://x/c.gz'' then ok_response ''CORRUPT''
      else if u = ''http://x/d.gz'' then ok_response ''ZIPPED''
      else if u = ''http://x/e'' then Raises OtherException
      else Responds \<lparr>status_code = 404, headers = Map.empty, content = []\<rparr>)"

definition example_env :: "(nat \<Rightarrow> bool) \<Rightarrow> string env" where
  "example_env up =
     \<lparr>web = example_web,
      DEFAULT_CRAWL_DELAY = 1,
      gunzip = (\<lambda>c. if c = ''ZIPPED'' then Some ''LEAF2'' else None),
      fromstring = (\<lambda>c. if c = ''INDEX'' \<or> c = ''LEAF'' \<or> c = ''LEAF2'' then Some c else None),
      tag = (\<lambda>d. if d = ''INDEX'' then ''sitemapindex'' else ''urlset''),
      nsmap_default = (\<lambda>d. None),
      xpath_elements = (\<lambda>d expr ns. if d = ''LEAF'' then [''http://x/1'', ''http://x/2'']
                                      else if d = ''LEAF2'' then [''http://x/3''] else []),
      xpath_strings = (\<lambda>d expr ns.
         if d = ''INDEX'' then [''http://x/i'', ''http://x/b'', ''http://x/a'',
                                ''http://x/c.gz'', ''http://x/d.gz'']
         else if expr = ''s:loc/text()'' then [d] else []),
      urljoin = (\<lambda>b u. b @ u),
      clock = (\<lambda>k. 100 + int k),
      db_ok = up,
      GITHUB_RUN_ID = None\<rparr>"

definition example_urls :: "string set" where
  "example_urls = {''http://x/i'', ''http://x/b'', ''http://x/a'', ''http://x/c.gz'', ''http://x/d.gz''}"

text \<open>The walk after the failed fetch of \<open>b\<close> alone.\<close>

definition after_b :: walk where
  "after_b = \<lparr>processed_sitemaps = {''http://x/b''}, all_urls = [], fetched = [''http://x/b'']\<rparr>"

text \<open>
  The site of the small web, already crawled once when page \<open>1\<close> was its only page, and
  the entries that its sitemap has now.
\<close>

definition example_site :: monitored_site where
  "example_site =
     \<lparr>site_id = 1, site_name = ''x'', base_url = ''http://x'', monitoring_type = ''sitemap'',
      sitemap_url = Some ''http://x/i'', is_enabled = 1, is_notification_enabled = 1,
      last_crawled_at = None\<rparr>"

definition example_page :: discovered_page where
  "example_page =
     \<lparr>monitored_site_id = 1, page_url = ''http://x/1'', page_title = None,
      first_discovered_at = 50, last_seen_at = 50, is_processed = 0\<rparr>"

definition example_world :: world where
  "example_world =
     \<lparr>db = \<lparr>sites = [1 \<mapsto> example_site], pages = [(1, ''http://x/1'') \<mapsto> example_page],
             logs = []\<rparr>,
      sess = fresh_session, ticks = 0, round_trips = 0, looked_up = [], notifications = []\<rparr>"

definition example_entries :: "entry list" where
  "example_entries =
     [\<lparr>url = ''http://x/1'', lastmod = None\<rparr>, \<lparr>url = ''http://x/2'', lastmod = None\<rparr>,
      \<lparr>url = ''http://x/3'', lastmod = None\<rparr>]"


text \<open>A sitemap content with the recorded page \<open>1\<close> and, twice, the page \<open>2\<close>.\<close>

definition example_duplicates :: "entry list" where
  "example_duplicates =
     [\<lparr>url = ''http://x/1'', lastmod = None\<rparr>, \<lparr>url = ''http://x/2'', lastmod = None\<rparr>,
      \<lparr>url = ''http://x/2'', lastmod = None\<rparr>]"

section \<open>Facts about \<open>make_request\<close>\<close>

lemma stop3: "stop_after_attempt 3 (Suc (Suc (Suc 0)))" "\<not> stop_after_attempt 3 (Suc (Suc 0))" "\<not> stop_after_attempt 3 (Suc 0)"
  by (simp_all add: stop_after_attempt_def)

lemma wait_1: "wait_exponential 1 2 10 (Suc 0) = 2"
  by (simp add: wait_exponential_def)

lemma wait_2: "wait_exponential 1 2 10 (Suc (Suc 0)) = 2"
  by (simp add: wait_exponential_def)

lemma retrying_3:
  "retrying env m u d (Suc (Suc (Suc 0))) =
     (case request_once env m u d (Suc (Suc (Suc 0))) of
        (evs, Inr r) \<Rightarrow> (evs, Inr r)
      | (evs, Inl e) \<Rightarrow> if \<not> retry_if_exception_type e then (evs, Inl e)
                        else (evs, Inl (RetryError e)))"
  apply (subst retrying.simps)
  apply (simp only: stop3 if_True)
  done

lemma retrying_2:
  "retrying env m u d (Suc (Suc 0)) =
     (case request_once env m u d (Suc (Suc 0)) of
        (evs, Inr r) \<Rightarrow> (evs, Inr r)
      | (evs, Inl e) \<Rightarrow> if \<not> retry_if_exception_type e then (evs, Inl e)
                        else (case retrying env m u d (Suc (Suc (Suc 0))) of
                  (evs', res) \<Rightarrow> (evs @ [Sleep 2] @ evs', res)))"
  apply (subst retrying.simps)
  apply (simp only: stop3 if_False wait_2)
  done

lemma retrying_1:
  "retrying env m u d (Suc 0) =
     (case request_once env m u d (Suc 0) of
        (evs, Inr r) \<Rightarrow> (evs, Inr r)
      | (evs, Inl e) \<Rightarrow> if \<not> retry_if_exception_type e then (evs, Inl e)
                        else (case retrying env m u d (Suc (Suc 0)) of
                  (evs', res) \<Rightarrow> (evs @ [Sleep 2] @ evs', res)))"
  apply (subst retrying.simps)
  apply (simp only: stop3 if_False wait_1)
  done

lemma make_request_1: "make_request env m u d = retrying env m u d (Suc 0)"
  by (simp only: make_request_def One_nat_def)

lemma snd_retrying_3:
  "snd (retrying env m u d (Suc (Suc (Suc 0)))) =
     (case snd (request_once env m u d (Suc (Suc (Suc 0)))) of
        Inr r \<Rightarrow> Inr r
      | Inl e \<Rightarrow> if \<not> retry_if_exception_type e then Inl e else Inl (RetryError e))"
  by (cases "request_once env m u d (Suc (Suc (Suc 0)))")
     (simp add: retrying_3 split: sum.splits)

lemma snd_retrying_2:
  "snd (retrying env m u d (Suc (Suc 0))) =
     (case snd (request_once env m u d (Suc (Suc 0))) of
        Inr r \<Rightarrow> Inr r
      | Inl e \<Rightarrow> if \<not> retry_if_exception_type e then Inl e
                 else snd (retrying env m u d (Suc (Suc (Suc 0)))))"
  by (cases "request_once env m u d (Suc (Suc 0))")
     (simp add: retrying_2 split_beta split: sum.splits)

lemma snd_retrying_1:
  "snd (retrying env m u d (Suc 0)) =
     (case snd (request_once env m u d (Suc 0)) of
        Inr r \<Rightarrow> Inr r
      | Inl e \<Rightarrow> if \<not> retry_if_exception_type e then Inl e
                 else snd (retrying env m u d (Suc (Suc 0))))"
  by (cases "request_once env m u d (Suc 0)")
     (simp add: retrying_1 split_beta split: sum.splits)

lemma make_request_result:
  "snd (make_request env m u d) =
     (case snd (request_once env m u d (Suc 0)) of
        Inr r \<Rightarrow> Inr r
      | Inl e1 \<Rightarrow>
          if \<not> retry_if_exception_type e1 then Inl e1
          else (case snd (request_once env m u d (Suc (Suc 0))) of
                  Inr r \<Rightarrow> Inr r
                | Inl e2 \<Rightarrow>
                    if \<not> retry_if_exception_type e2 then Inl e2
                    else (case snd (request_once env m u d (Suc (Suc (Suc 0)))) of
                            Inr r \<Rightarrow> Inr r
                          | Inl e3 \<Rightarrow>
                              if \<not> retry_if_exception_type e3 then Inl e3
                              else Inl (RetryError e3))))"
  by (simp only: make_request_1 snd_retrying_1 snd_retrying_2 snd_retrying_3)

section \<open>Facts about the walk\<close>

lemma fold_None:
  "fold (\<lambda>c r. case r of None \<Rightarrow> None | Some s \<Rightarrow> f c s) cs None = None"
  by (induction cs) simp_all

lemma process_sitemap_Suc:
  "process_sitemap (Suc n) env base u st =
     (if u \<in> processed_sitemaps st then Some st
      else fold (\<lambda>child_url r. case r of None \<Rightarrow> None
                               | Some s \<Rightarrow> process_sitemap n env base child_url s)
             (child_sitemaps env base u)
             (Some (st\<lparr>processed_sitemaps := insert u (processed_sitemaps st),
                        fetched := fetched st @ [u],
                        all_urls := all_urls st @ leaf_entries env u\<rparr>)))"
  by (simp add: child_sitemaps_def leaf_entries_def Let_def split: option.splits)

lemma extends_refl: "extends env base st st []"
  by (simp add: extends_def)

lemma extends_trans:
  assumes "extends env base st s1 n1" and "extends env base s1 s2 n2"
  shows "extends env base st s2 (n1 @ n2)"
proof -
  have a: "fetched s1 = fetched st @ n1" "distinct n1" "set n1 \<inter> processed_sitemaps st = {}"
    "processed_sitemaps s1 = processed_sitemaps st \<union> set n1"
    "all_urls s1 = all_urls st @ concat (map (leaf_entries env) n1)"
    "\<forall>v\<in>set n1. set (child_sitemaps env base v) \<subseteq> processed_sitemaps s1"
    using assms(1) unfolding extends_def by blast+
  have b: "fetched s2 = fetched s1 @ n2" "distinct n2" "set n2 \<inter> processed_sitemaps s1 = {}"
    "processed_sitemaps s2 = processed_sitemaps s1 \<union> set n2"
    "all_urls s2 = all_urls s1 @ concat (map (leaf_entries env) n2)"
    "\<forall>v\<in>set n2. set (child_sitemaps env base v) \<subseteq> processed_sitemaps s2"
    using assms(2) unfolding extends_def by blast+
  have 1: "fetched s2 = fetched st @ n1 @ n2" using a(1) b(1) by simp
  have 2: "distinct (n1 @ n2)" using a(2,4) b(2,3) by auto
  have 3: "set (n1 @ n2) \<inter> processed_sitemaps st = {}" using a(3,4) b(3) by auto
  have 4: "processed_sitemaps s2 = processed_sitemaps st \<union> set (n1 @ n2)" using a(4) b(4) by auto
  have 5: "all_urls s2 = all_urls st @ concat (map (leaf_entries env) (n1 @ n2))" using a(5) b(5) by simp
  have 6: "\<forall>v\<in>set (n1 @ n2). set (child_sitemaps env base v) \<subseteq> processed_sitemaps s2"
    using a(6) b(4,6) by auto
  show ?thesis unfolding extends_def using 1 2 3 4 5 6 by blast
qed

lemma extends_mono: "extends env base st st' new \<Longrightarrow> processed_sitemaps st \<subseteq> processed_sitemaps st'"
  by (auto simp: extends_def)

lemma fold_extends:
  assumes IH: "\<And>u st st'. process_sitemap n env base u st = Some st' \<Longrightarrow>
                 \<exists>new. extends env base st st' new \<and> u \<in> processed_sitemaps st'"
  shows "fold (\<lambda>child_url r. case r of None \<Rightarrow> None
                               | Some s \<Rightarrow> process_sitemap n env base child_url s) cs (Some s) = Some s'
         \<Longrightarrow> \<exists>new. extends env base s s' new \<and> set cs \<subseteq> processed_sitemaps s'"
proof (induction cs arbitrary: s)
  case Nil
  then show ?case using extends_refl by auto
next
  case (Cons c cs)
  show ?case
  proof (cases "process_sitemap n env base c s")
    case None
    with Cons.prems show ?thesis by (simp add: fold_None)
  next
    case (Some s1)
    with Cons.prems have f: "fold (\<lambda>child_url r. case r of None \<Rightarrow> None
                               | Some s \<Rightarrow> process_sitemap n env base child_url s) cs (Some s1) = Some s'"
      by simp
    from IH[OF Some] obtain n1 where 1: "extends env base s s1 n1" "c \<in> processed_sitemaps s1" by blast
    from Cons.IH[OF f] obtain n2 where 2: "extends env base s1 s' n2" "set cs \<subseteq> processed_sitemaps s'" by blast
    have "extends env base s s' (n1 @ n2)" using 1 2 extends_trans by blast
    moreover have "c \<in> processed_sitemaps s'" using 1 2 extends_mono by blast
    ultimately show ?thesis using 2 by auto
  qed
qed

lemma process_sitemap_extends:
  "process_sitemap n env base u st = Some st' \<Longrightarrow>
     \<exists>new. extends env base st st' new \<and> u \<in> processed_sitemaps st'"
proof (induction n arbitrary: u st st')
  case 0
  then show ?case by simp
next
  case (Suc n)
  show ?case
  proof (cases "u \<in> processed_sitemaps st")
    case True
    with Suc.prems show ?thesis using extends_refl by (auto simp: process_sitemap_Suc simp del: process_sitemap.simps)
  next
    case False
    define st2 where "st2 = st\<lparr>processed_sitemaps := insert u (processed_sitemaps st),
                        fetched := fetched st @ [u],
                        all_urls := all_urls st @ leaf_entries env u\<rparr>"
    from Suc.prems False have f: "fold (\<lambda>child_url r. case r of None \<Rightarrow> None
                               | Some s \<Rightarrow> process_sitemap n env base child_url s)
             (child_sitemaps env base u) (Some st2) = Some st'"
      by (simp add: process_sitemap_Suc st2_def del: process_sitemap.simps)
    from fold_extends[OF Suc.IH f] obtain new where
      n: "extends env base st2 st' new" "set (child_sitemaps env base u) \<subseteq> processed_sitemaps st'"
      by blast
    have b: "fetched st' = fetched st2 @ new" "distinct new" "set new \<inter> processed_sitemaps st2 = {}"
      "processed_sitemaps st' = processed_sitemaps st2 \<union> set new"
      "all_urls st' = all_urls st2 @ concat (map (leaf_entries env) new)"
      "\<forall>v\<in>set new. set (child_sitemaps env base v) \<subseteq> processed_sitemaps st'"
      using n(1) unfolding extends_def by blast+
    have 1: "fetched st' = fetched st @ (u # new)" using b(1) by (simp add: st2_def)
    have 2: "distinct (u # new)" using b(2,3) by (auto simp: st2_def)
    have 3: "set (u # new) \<inter> processed_sitemaps st = {}" using b(3) False by (auto simp: st2_def)
    have 4: "processed_sitemaps st' = processed_sitemaps st \<union> set (u # new)"
      using b(4) by (auto simp: st2_def)
    have 5: "all_urls st' = all_urls st @ concat (map (leaf_entries env) (u # new))"
      using b(5) by (simp add: st2_def)
    have 6: "\<forall>v\<in>set (u # new). set (child_sitemaps env base v) \<subseteq> processed_sitemaps st'"
      using b(6) n(2) by auto
    have "extends env base st st' (u # new)"
      unfolding extends_def using 1 2 3 4 5 6 by blast
    moreover have "u \<in> processed_sitemaps st'"
      using n(1) unfolding extends_def st2_def by auto
    ultimately show ?thesis by blast
  qed
qed


lemma card_diff_mono:
  assumes "finite U" and "P \<subseteq> Q"
  shows "card (U - Q) \<le> card (U - P)"
  by (rule card_mono) (use assms in auto)

lemma fold_returns:
  assumes fin: "finite U"
    and IH: "\<And>u st. u \<in> U \<Longrightarrow> card (U - processed_sitemaps st) < n \<Longrightarrow>
               \<exists>st'. process_sitemap n env base u st = Some st' \<and>
                     processed_sitemaps st' \<subseteq> processed_sitemaps st \<union> U"
  shows "set cs \<subseteq> U \<Longrightarrow> card (U - processed_sitemaps s) < n \<Longrightarrow>
         \<exists>s'. fold (\<lambda>child_url r. case r of None \<Rightarrow> None
                               | Some s \<Rightarrow> process_sitemap n env base child_url s) cs (Some s) = Some s' \<and>
              processed_sitemaps s' \<subseteq> processed_sitemaps s \<union> U"
proof (induction cs arbitrary: s)
  case Nil
  then show ?case by simp
next
  case (Cons c cs)
  from Cons.prems have "c \<in> U" by simp
  from IH[OF this Cons.prems(2)] obtain s1 where
    s1: "process_sitemap n env base c s = Some s1"
        "processed_sitemaps s1 \<subseteq> processed_sitemaps s \<union> U" by blast
  from process_sitemap_extends[OF s1(1)] have "processed_sitemaps s \<subseteq> processed_sitemaps s1"
    using extends_mono by blast
  then have "card (U - processed_sitemaps s1) \<le> card (U - processed_sitemaps s)"
    by (rule card_diff_mono[OF fin])
  with Cons.prems have lt: "card (U - processed_sitemaps s1) < n" by simp
  from Cons.prems have "set cs \<subseteq> U" by simp
  from Cons.IH[OF this lt] obtain s' where
    s': "fold (\<lambda>child_url r. case r of None \<Rightarrow> None
                               | Some s \<Rightarrow> process_sitemap n env base child_url s) cs (Some s1) = Some s'"
        "processed_sitemaps s' \<subseteq> processed_sitemaps s1 \<union> U" by blast
  have "processed_sitemaps s' \<subseteq> processed_sitemaps s \<union> U" using s'(2) s1(2) by blast
  with s'(1) s1(1) show ?case by simp
qed

lemma process_sitemap_returns:
  assumes fin: "finite U"
    and closed: "\<forall>v\<in>U. set (child_sitemaps env base v) \<subseteq> U"
  shows "u \<in> U \<Longrightarrow> card (U - processed_sitemaps st) < n \<Longrightarrow>
         \<exists>st'. process_sitemap n env base u st = Some st' \<and>
               processed_sitemaps st' \<subseteq> processed_sitemaps st \<union> U"
proof (induction n arbitrary: u st)
  case 0
  then show ?case by simp
next
  case (Suc n)
  show ?case
  proof (cases "u \<in> processed_sitemaps st")
    case True
    then show ?thesis by (simp add: process_sitemap_Suc del: process_sitemap.simps)
  next
    case False
    define st2 where "st2 = st\<lparr>processed_sitemaps := insert u (processed_sitemaps st),
                        fetched := fetched st @ [u],
                        all_urls := all_urls st @ leaf_entries env u\<rparr>"
    have p2: "processed_sitemaps st2 = insert u (processed_sitemaps st)" by (simp add: st2_def)
    have "U - processed_sitemaps st2 \<subset> U - processed_sitemaps st"
      using False Suc.prems(1) p2 by auto
    then have "card (U - processed_sitemaps st2) < card (U - processed_sitemaps st)"
      using fin by (intro psubset_card_mono) auto
    with Suc.prems(2) have lt: "card (U - processed_sitemaps st2) < n" by simp
    have cs: "set (child_sitemaps env base u) \<subseteq> U" using closed Suc.prems(1) by blast
    from fold_returns[OF fin Suc.IH cs lt] obtain st' where
      st': "fold (\<lambda>child_url r. case r of None \<Rightarrow> None
                               | Some s \<Rightarrow> process_sitemap n env base child_url s)
              (child_sitemaps env base u) (Some st2) = Some st'"
           "processed_sitemaps st' \<subseteq> processed_sitemaps st2 \<union> U" by blast
    have "processed_sitemaps st' \<subseteq> processed_sitemaps st \<union> U"
      using st'(2) p2 Suc.prems(1) by auto
    with st'(1) False show ?thesis
      by (simp add: process_sitemap_Suc st2_def del: process_sitemap.simps)
  qed
qed

lemma walk_from_extends:
  assumes "walk_from n env r base = Some st'"
  shows "distinct (fetched st')" "processed_sitemaps st' = set (fetched st')"
    "all_urls st' = concat (map (leaf_entries env) (fetched st'))"
    "\<forall>v\<in>processed_sitemaps st'. set (child_sitemaps env base v) \<subseteq> processed_sitemaps st'"
    "r \<in> processed_sitemaps st'"
proof -
  from assms process_sitemap_extends obtain new where
    e: "extends env base \<lparr>processed_sitemaps = {}, all_urls = [], fetched = []\<rparr> st' new"
       "r \<in> processed_sitemaps st'"
    unfolding walk_from_def by blast
  from e(1) have f: "fetched st' = new" by (simp add: extends_def)
  from e(1) show "distinct (fetched st')" by (simp add: extends_def)
  from e(1) show p: "processed_sitemaps st' = set (fetched st')" by (simp add: extends_def)
  from e(1) show "all_urls st' = concat (map (leaf_entries env) (fetched st'))" by (simp add: extends_def)
  from e(1) f p show "\<forall>v\<in>processed_sitemaps st'. set (child_sitemaps env base v) \<subseteq> processed_sitemaps st'"
    by (simp add: extends_def)
  from e(2) show "r \<in> processed_sitemaps st'" .
qed

lemma walk_from_returns:
  assumes "finite U" and "\<forall>v\<in>U. set (child_sitemaps env base v) \<subseteq> U" and "r \<in> U"
  shows "\<exists>st'. walk_from (Suc (card U)) env r base = Some st' \<and> processed_sitemaps st' \<subseteq> U"
proof -
  have "card (U - processed_sitemaps \<lparr>processed_sitemaps = {}, all_urls = [], fetched = []\<rparr>) < Suc (card U)"
    by simp
  from process_sitemap_returns[OF assms(1,2,3) this] show ?thesis
    unfolding walk_from_def by simp
qed

section \<open>Facts about the small web\<close>

lemma example_once:
  "snd (request_once (example_env up) ''GET'' u None k) =
     (case example_web ''GET'' u k of
        Raises e \<Rightarrow> Inl e
      | Responds r \<Rightarrow> if 400 \<le> status_code r \<and> status_code r < 600
                       then Inl (HTTPError (status_code r)) else Inr r)"
  by (simp add: request_once_def example_env_def)

lemma example_fetch:
  "fetch_sitemap (example_env up) ''http://x/i'' = Some ''INDEX''"
  "fetch_sitemap (example_env up) ''http://x/b'' = None"
  "fetch_sitemap (example_env up) ''http://x/a'' = Some ''LEAF''"
  "fetch_sitemap (example_env up) ''http://x/c.gz'' = None"
  "fetch_sitemap (example_env up) ''http://x/d.gz'' = Some ''LEAF2''"
  by (simp_all add: fetch_sitemap_def make_request_result example_once example_web_def
        ok_response_def retry_if_exception_type_def)
     (simp_all add: example_env_def suffix_to_prefix)

lemma example_children:
  "child_sitemaps (example_env up) base ''http://x/i'' =
     [''http://x/i'', ''http://x/b'', ''http://x/a'', ''http://x/c.gz'', ''http://x/d.gz'']"
  "child_sitemaps (example_env up) base ''http://x/b'' = []"
  "child_sitemaps (example_env up) base ''http://x/a'' = []"
  "child_sitemaps (example_env up) base ''http://x/c.gz'' = []"
  "child_sitemaps (example_env up) base ''http://x/d.gz'' = []"
  by (simp_all add: child_sitemaps_def example_fetch is_sitemap_index_def parse_sitemap_index_def)
     (simp_all add: example_env_def strip_def is_space_def)

lemma example_closed:
  "\<forall>v\<in>example_urls. set (child_sitemaps (example_env up) base v) \<subseteq> example_urls"
  by (simp add: example_urls_def example_children)

lemma example_card: "card example_urls = 5"
  by (simp add: example_urls_def)

lemma process_sitemap_failed:
  "u \<notin> processed_sitemaps st \<Longrightarrow> child_sitemaps env base u = [] \<Longrightarrow>
   process_sitemap (Suc n) env base u st =
     Some (st\<lparr>processed_sitemaps := insert u (processed_sitemaps st),
               fetched := fetched st @ [u],
               all_urls := all_urls st @ leaf_entries env u\<rparr>)"
  by (simp add: process_sitemap_Suc del: process_sitemap.simps)

lemma process_sitemap_again:
  "u \<in> processed_sitemaps st \<Longrightarrow> process_sitemap (Suc m) env base u st = Some st"
  by simp

lemma example_walk_returns:
  "\<exists>st'. walk_from 6 (example_env up) ''http://x/i'' [] = Some st'"
proof -
  have "finite example_urls" "''http://x/i'' \<in> example_urls" by (simp_all add: example_urls_def)
  from walk_from_returns[OF this(1) example_closed[of up "[]"] this(2)] show ?thesis
    by (auto simp: example_card eval_nat_numeral)
qed

lemma example_leaves:
  "leaf_entries (example_env up) ''http://x/b'' = []"
  "leaf_entries (example_env up) ''http://x/a'' =
     [\<lparr>url = ''http://x/1'', lastmod = None\<rparr>, \<lparr>url = ''http://x/2'', lastmod = None\<rparr>]"
  "leaf_entries (example_env up) ''http://x/d.gz'' = [\<lparr>url = ''http://x/3'', lastmod = None\<rparr>]"
  by (simp_all add: leaf_entries_def example_fetch is_sitemap_index_def parse_sitemap_def)
     (simp_all add: example_env_def strip_def is_space_def suffix_to_prefix)

lemma example_request_d:
  "snd (make_request (example_env up) ''GET'' ''http://x/d.gz'' None) =
     Inr \<lparr>status_code = 200, headers = Map.empty, content = ''ZIPPED''\<rparr>"
  "snd (make_request (example_env up) ''GET'' ''http://x/c.gz'' None) =
     Inr \<lparr>status_code = 200, headers = Map.empty, content = ''CORRUPT''\<rparr>"
  by (simp_all add: make_request_result example_once example_web_def ok_response_def)

lemma example_index_d: "\<not> is_sitemap_index (example_env up) ''LEAF2''"
  by (simp add: is_sitemap_index_def example_env_def suffix_to_prefix)

lemma example_gunzip:
  "gunzip (example_env up) ''ZIPPED'' = Some ''LEAF2''" "gunzip (example_env up) ''CORRUPT'' = None"
  by (simp_all add: example_env_def)

lemma fst_retrying_3:
  "snd (request_once env m u d (Suc (Suc (Suc 0)))) = Inr r \<or>
   snd (request_once env m u d (Suc (Suc (Suc 0)))) = Inl e \<Longrightarrow>
   fst (retrying env m u d (Suc (Suc (Suc 0)))) = fst (request_once env m u d (Suc (Suc (Suc 0))))"
  by (cases "request_once env m u d (Suc (Suc (Suc 0)))")
     (auto simp: retrying_3 split: sum.splits)

lemma fst_retrying_2:
  "snd (request_once env m u d (Suc (Suc 0))) = Inl e \<Longrightarrow> retry_if_exception_type e \<Longrightarrow>
   fst (retrying env m u d (Suc (Suc 0))) =
     fst (request_once env m u d (Suc (Suc 0))) @ [Sleep 2] @ fst (retrying env m u d (Suc (Suc (Suc 0))))"
  by (cases "request_once env m u d (Suc (Suc 0))")
     (simp add: retrying_2 split_beta)

lemma fst_retrying_1:
  "snd (request_once env m u d (Suc 0)) = Inl e \<Longrightarrow> retry_if_exception_type e \<Longrightarrow>
   fst (retrying env m u d (Suc 0)) =
     fst (request_once env m u d (Suc 0)) @ [Sleep 2] @ fst (retrying env m u d (Suc (Suc 0)))"
  by (cases "request_once env m u d (Suc 0)")
     (simp add: retrying_1 split_beta)

lemma fst_retrying_stop:
  "snd (request_once env m u d (Suc 0)) = Inl e \<Longrightarrow> \<not> retry_if_exception_type e \<Longrightarrow>
   retrying env m u d (Suc 0) = (fst (request_once env m u d (Suc 0)), Inl e)"
  by (cases "request_once env m u d (Suc 0)")
     (simp add: retrying_1)

lemma wait_exponential_bounds:
  "2 \<le> wait_exponential 1 2 10 k \<and> wait_exponential 1 2 10 k \<le> 10"
  by (simp add: wait_exponential_def)

lemma example_fst_once:
  "fst (request_once (example_env up) ''GET'' u None k) = [Sleep 1, Send ''GET'' u]"
  by (simp add: request_once_def example_env_def)

section \<open>Facts about the crawler\<close>

lemma then_do_Inr: "m w = (Inr a, w') \<Longrightarrow> then_do m f w = f a w'"
  by (simp add: then_do_def)

lemma then_do_Inl: "m w = (Inl e, w') \<Longrightarrow> then_do m f w = (Inl e, w')"
  by (simp add: then_do_def)

lemma then_do_eq_Inr:
  "then_do m f w = (Inr b, w'') \<longleftrightarrow> (\<exists>a w'. m w = (Inr a, w') \<and> f a w' = (Inr b, w''))"
  by (auto simp: then_do_def split: prod.splits sum.splits)

lemma first_page_effect:
  assumes "first_page env sid u w = (x, w1)"
  shows "db w1 = db w" "ticks w1 = ticks w" "looked_up w1 = looked_up w @ [u]"
    "pending (sess w1) = pending (sess w)" "notifications w1 = notifications w"
    "round_trips w1 = Suc (round_trips w)"
    "x = (if db_ok env (round_trips w) then Inr (pages (db w) (sid, u)) else Inl OperationalError)"
  using assms
  by (auto simp: first_page_def query_def round_trip_def then_do_def split: if_splits)

lemma added_pages_append [simp]: "added_pages (xs @ ys) = added_pages xs @ added_pages ys"
  by (simp add: added_pages_def)

lemma added_pages_simps [simp]:
  "added_pages [] = []"
  "added_pages [Add_page p] = [p]"
  "added_pages [Set_last_seen s u t] = []"
  "added_pages [Set_last_crawled s t] = []"
  "added_pages [Add_log l] = []"
  by (simp_all add: added_pages_def)

lemma created_page_mono:
  "created_page env site lo hi p \<Longrightarrow> lo' \<le> lo \<Longrightarrow> created_page env site lo' hi p"
  unfolding created_page_def by (meson le_trans)

lemma diff_entries_Inr:
  "diff_entries env site S E np w = (Inr r, w') \<Longrightarrow>
     \<exists>new. r = np @ new \<and>
       map page_url new = map url (spec_new S E) \<and>
       looked_up w' = looked_up w @ map url (spec_reseen S E) \<and>
       db w' = db w \<and> ticks w \<le> ticks w' \<and> notifications w' = notifications w \<and>
       added_pages (pending (sess w')) = added_pages (pending (sess w)) @ new \<and>
       (\<forall>p\<in>set new. created_page env site (ticks w) (ticks w') p)"
proof (induction E arbitrary: np w)
  case Nil
  then show ?case by (simp add: spec_new_def spec_reseen_def)
next
  case (Cons e es)
  show ?case
  proof (cases "S (url e) \<noteq> None")
    case True
    obtain x w1 where fp: "first_page env (site_id site) (url e) w = (x, w1)"
      by (cases "first_page env (site_id site) (url e) w")
    note eff = first_page_effect[OF fp]
    show ?thesis
    proof (cases x)
      case (Inl a)
      with Cons.prems True fp show ?thesis by simp
    next
      case (Inr pg)
      show ?thesis
      proof (cases pg)
        case None
        with Cons.prems True fp Inr have "diff_entries env site S es np w1 = (Inr r, w')" by simp
        from Cons.IH[OF this] obtain new where
          n: "r = np @ new" "map page_url new = map url (spec_new S es)"
          "looked_up w' = looked_up w1 @ map url (spec_reseen S es)"
          "db w' = db w1" "ticks w1 \<le> ticks w'" "notifications w' = notifications w1"
          "added_pages (pending (sess w')) = added_pages (pending (sess w1)) @ new"
          "\<forall>p\<in>set new. created_page env site (ticks w1) (ticks w') p"
          by blast
        show ?thesis
          apply (rule exI[of _ new])
          using n True eff(1-5) by (auto simp: spec_new_def spec_reseen_def)
      next
        case (Some page)
        define w3 where "w3 = add (Set_last_seen (site_id site) (url e) (clock env (ticks w1)))
                                 (w1\<lparr>ticks := Suc (ticks w1)\<rparr>)"
        from Cons.prems True fp Inr Some have "diff_entries env site S es np w3 = (Inr r, w')"
          by (simp add: utc_now_def w3_def)
        from Cons.IH[OF this] obtain new where
          n: "r = np @ new" "map page_url new = map url (spec_new S es)"
          "looked_up w' = looked_up w3 @ map url (spec_reseen S es)"
          "db w' = db w3" "ticks w3 \<le> ticks w'" "notifications w' = notifications w3"
          "added_pages (pending (sess w')) = added_pages (pending (sess w3)) @ new"
          "\<forall>p\<in>set new. created_page env site (ticks w3) (ticks w') p"
          by blast
        have w3: "looked_up w3 = looked_up w1" "db w3 = db w1" "ticks w3 = Suc (ticks w1)"
          "notifications w3 = notifications w1"
          "added_pages (pending (sess w3)) = added_pages (pending (sess w1))"
          by (simp_all add: w3_def add_def)
        show ?thesis
          apply (rule exI[of _ new])
          using n True eff(1-5) w3 by (auto simp: spec_new_def spec_reseen_def intro: created_page_mono)
      qed
    qed
  next
    case False
    define page where "page = \<lparr>monitored_site_id = site_id site, page_url = url e,
                                  page_title = None, first_discovered_at = clock env (ticks w),
                                  last_seen_at = clock env (Suc (ticks w)), is_processed = 0\<rparr>"
    define w3 where "w3 = add (Add_page page) (w\<lparr>ticks := Suc (Suc (ticks w))\<rparr>)"
    from Cons.prems False have "diff_entries env site S es (np @ [page]) w3 = (Inr r, w')"
      by (simp add: utc_now_def w3_def page_def Let_def)
    from Cons.IH[OF this] obtain new where
      n: "r = (np @ [page]) @ new" "map page_url new = map url (spec_new S es)"
      "looked_up w' = looked_up w3 @ map url (spec_reseen S es)"
      "db w' = db w3" "ticks w3 \<le> ticks w'" "notifications w' = notifications w3"
      "added_pages (pending (sess w')) = added_pages (pending (sess w3)) @ new"
      "\<forall>p\<in>set new. created_page env site (ticks w3) (ticks w') p"
      by blast
    have w3: "looked_up w3 = looked_up w" "db w3 = db w" "ticks w3 = Suc (Suc (ticks w))"
      "notifications w3 = notifications w"
      "added_pages (pending (sess w3)) = added_pages (pending (sess w)) @ [page]"
      by (simp_all add: w3_def add_def)
    have pg: "created_page env site (ticks w) (ticks w') page"
      using n(5) w3(3) by (auto simp: page_def created_page_def intro!: exI[of _ "ticks w"])
    have rest: "\<forall>p\<in>set new. created_page env site (ticks w) (ticks w') p"
      using n(8) w3(3) by (auto intro: created_page_mono)
    show ?thesis
      apply (rule exI[of _ "page # new"])
      using n(1-7) False w3 pg rest by (auto simp: spec_new_def spec_reseen_def page_def)
  qed
qed

lemma diff_entries_no_fault:
  "\<forall>k. db_ok env k \<Longrightarrow> \<exists>r w'. diff_entries env site S E np w = (Inr r, w')"
proof (induction E arbitrary: np w)
  case Nil
  then show ?case by simp
next
  case (Cons e es)
  show ?case
  proof (cases "S (url e) \<noteq> None")
    case True
    obtain x w1 where fp: "first_page env (site_id site) (url e) w = (x, w1)"
      by (cases "first_page env (site_id site) (url e) w")
    from first_page_effect(7)[OF fp] Cons.prems
    have x: "x = Inr (pages (db w) (site_id site, url e))" by simp
    show ?thesis
      using True fp x Cons.IH[OF Cons.prems]
      by (cases "pages (db w) (site_id site, url e)") (simp_all add: utc_now_def)
  next
    case False
    then show ?thesis
      using Cons.IH[OF Cons.prems] by (simp add: utc_now_def Let_def)
  qed
qed


lemma commit_cases:
  "commit env w = (r, w') \<Longrightarrow>
     (r = Inr () \<and> apply_changes (pending (sess w)) (db w) = Inr (db w')) \<or>
     ((\<exists>e. r = Inl e) \<and> db w' = db w)"
  by (auto simp: commit_def round_trip_def split: if_splits sum.splits)

lemma commit_other_fields:
  "commit env w = (r, w') \<Longrightarrow>
     ticks w' = ticks w \<and> notifications w' = notifications w \<and> looked_up w' = looked_up w"
  by (auto simp: commit_def round_trip_def split: if_splits sum.splits)

lemma commit_Inr_session:
  "commit env w = (Inr x, w') \<Longrightarrow> pending (sess w') = [] \<and> \<not> in_transaction (sess w')"
  by (auto simp: commit_def round_trip_def fresh_session_def split: if_splits sum.splits)

lemma commit_cycle_cases:
  assumes "commit_cycle env site w = (r, w')"
  shows "(r = Inr () \<and>
           (\<exists>d. apply_changes (pending (sess w)) (db w) = Inr d \<and>
                apply_change (Set_last_crawled (site_id site) (clock env (ticks w))) d = Inr (db w'))) \<or>
         ((\<exists>e. r = Inl e) \<and>
           (db w' = db w \<or> apply_changes (pending (sess w)) (db w) = Inr (db w')))"
proof (cases "commit env w")
  case (Pair r1 w1)
  note c1 = commit_cases[OF Pair] and o1 = commit_other_fields[OF Pair]
  show ?thesis
  proof (cases r1)
    case (Inl e)
    with assms Pair c1 show ?thesis by (auto simp: commit_cycle_def then_do_def)
  next
    case (Inr u)
    with c1 have a1: "apply_changes (pending (sess w)) (db w) = Inr (db w1)" by auto
    from Inr Pair have s1: "pending (sess w1) = []" using commit_Inr_session by blast
    define w2 where "w2 = add (Set_last_crawled (site_id site) (clock env (ticks w1)))
                             (w1\<lparr>ticks := Suc (ticks w1)\<rparr>)"
    have c2: "commit env w2 = (r, w')"
      using assms Pair Inr
      by (simp add: commit_cycle_def then_do_def update_site_last_crawled_def utc_now_def w2_def)
    have p2: "pending (sess w2) = [Set_last_crawled (site_id site) (clock env (ticks w))]"
      "db w2 = db w1"
      using s1 o1 by (simp_all add: w2_def add_def)
    from commit_cases[OF c2] p2 a1 show ?thesis
      by (auto split: sum.splits)
  qed
qed




lemma staged_by_diff_mono:
  "staged_by_diff env site S lo hi c \<Longrightarrow> lo' \<le> lo \<Longrightarrow> hi \<le> hi' \<Longrightarrow>
   staged_by_diff env site S lo' hi' c"
  unfolding staged_by_diff_def
  by (cases c) (auto intro: le_trans less_le_trans)

lemma diff_entries_ticks:
  "diff_entries env site S E np w = (r, w') \<Longrightarrow> ticks w \<le> ticks w'"
proof (induction E arbitrary: np w)
  case Nil
  then show ?case by simp
next
  case (Cons e es)
  show ?case
  proof (cases "S (url e) \<noteq> None")
    case True
    obtain x w1 where fp: "first_page env (site_id site) (url e) w = (x, w1)"
      by (cases "first_page env (site_id site) (url e) w")
    note eff = first_page_effect[OF fp]
    show ?thesis
    proof (cases x)
      case (Inl a)
      with Cons.prems True fp eff(2) show ?thesis by auto
    next
      case (Inr pg)
      show ?thesis
      proof (cases pg)
        case None
        with Cons.prems True fp Inr have "diff_entries env site S es np w1 = (r, w')" by simp
        from Cons.IH[OF this] eff(2) show ?thesis by simp
      next
        case (Some page)
        with Cons.prems True fp Inr have
          "diff_entries env site S es np
             (add (Set_last_seen (site_id site) (url e) (clock env (ticks w1)))
                (w1\<lparr>ticks := Suc (ticks w1)\<rparr>)) = (r, w')"
          by (simp add: utc_now_def)
        from Cons.IH[OF this] eff(2) show ?thesis by (simp add: add_def)
      qed
    qed
  next
    case False
    with Cons.prems have
      "diff_entries env site S es
         (np @ [\<lparr>monitored_site_id = site_id site, page_url = url e,
                  page_title = None, first_discovered_at = clock env (ticks w),
                  last_seen_at = clock env (Suc (ticks w)), is_processed = 0\<rparr>])
         (add (Add_page \<lparr>monitored_site_id = site_id site, page_url = url e,
                  page_title = None, first_discovered_at = clock env (ticks w),
                  last_seen_at = clock env (Suc (ticks w)), is_processed = 0\<rparr>)
            (w\<lparr>ticks := Suc (Suc (ticks w))\<rparr>)) = (r, w')"
      by (simp add: utc_now_def Let_def)
    from Cons.IH[OF this] show ?thesis by (simp add: add_def)
  qed
qed

lemma diff_entries_staged:
  "diff_entries env site S E np w = (Inr r, w') \<Longrightarrow>
     \<exists>cs. pending (sess w') = pending (sess w) @ cs \<and>
          (\<forall>c\<in>set cs. staged_by_diff env site S (ticks w) (ticks w') c) \<and>
          (\<forall>e\<in>set E. url e \<in> dom S \<and> pages (db w) (site_id site, url e) \<noteq> None \<longrightarrow>
             (\<exists>t. Set_last_seen (site_id site) (url e) t \<in> set cs))"
proof (induction E arbitrary: np w)
  case Nil
  then show ?case by simp
next
  case (Cons e es)
  show ?case
  proof (cases "S (url e) \<noteq> None")
    case True
    obtain x w1 where fp: "first_page env (site_id site) (url e) w = (x, w1)"
      by (cases "first_page env (site_id site) (url e) w")
    note eff = first_page_effect[OF fp]
    show ?thesis
    proof (cases x)
      case (Inl a)
      with Cons.prems True fp show ?thesis by simp
    next
      case (Inr pg)
      with eff(7) have pg: "pg = pages (db w) (site_id site, url e)" by (auto split: if_splits)
      show ?thesis
      proof (cases pg)
        case None
        with Cons.prems True fp Inr have "diff_entries env site S es np w1 = (Inr r, w')" by simp
        from Cons.IH[OF this] obtain cs where
          cs: "pending (sess w') = pending (sess w1) @ cs"
              "\<forall>c\<in>set cs. staged_by_diff env site S (ticks w1) (ticks w') c"
              "\<forall>e\<in>set es. url e \<in> dom S \<and> pages (db w1) (site_id site, url e) \<noteq> None \<longrightarrow>
                 (\<exists>t. Set_last_seen (site_id site) (url e) t \<in> set cs)"
          by blast
        show ?thesis
          apply (rule exI[of _ cs])
          using cs eff(1,2,4) None pg by auto
      next
        case (Some page)
        define c0 where "c0 = Set_last_seen (site_id site) (url e) (clock env (ticks w1))"
        define w3 where "w3 = add c0 (w1\<lparr>ticks := Suc (ticks w1)\<rparr>)"
        from Cons.prems True fp Inr Some have d: "diff_entries env site S es np w3 = (Inr r, w')"
          by (simp add: utc_now_def w3_def c0_def)
        from Cons.IH[OF d] obtain cs where
          cs: "pending (sess w') = pending (sess w3) @ cs"
              "\<forall>c\<in>set cs. staged_by_diff env site S (ticks w3) (ticks w') c"
              "\<forall>e\<in>set es. url e \<in> dom S \<and> pages (db w3) (site_id site, url e) \<noteq> None \<longrightarrow>
                 (\<exists>t. Set_last_seen (site_id site) (url e) t \<in> set cs)"
          by blast
        have w3: "pending (sess w3) = pending (sess w) @ [c0]" "db w3 = db w"
          "ticks w3 = Suc (ticks w)"
          using eff(1,2,4) by (simp_all add: w3_def add_def)
        have le: "Suc (ticks w) \<le> ticks w'" using diff_entries_ticks[OF d] w3(3) by simp
        have s0: "staged_by_diff env site S (ticks w) (ticks w') c0"
          using True le eff(2) by (auto simp: staged_by_diff_def c0_def intro!: exI[of _ "ticks w"])
        have s1: "\<forall>c\<in>set cs. staged_by_diff env site S (ticks w) (ticks w') c"
          using cs(2) w3(3) by (auto intro: staged_by_diff_mono)
        show ?thesis
          apply (rule exI[of _ "c0 # cs"])
          using cs(1,3) w3 s0 s1 by (auto simp: c0_def)
      qed
    qed
  next
    case False
    define page where "page = \<lparr>monitored_site_id = site_id site, page_url = url e,
                                  page_title = None, first_discovered_at = clock env (ticks w),
                                  last_seen_at = clock env (Suc (ticks w)), is_processed = 0\<rparr>"
    define w3 where "w3 = add (Add_page page) (w\<lparr>ticks := Suc (Suc (ticks w))\<rparr>)"
    from Cons.prems False have d: "diff_entries env site S es (np @ [page]) w3 = (Inr r, w')"
      by (simp add: utc_now_def w3_def page_def Let_def)
    from Cons.IH[OF d] obtain cs where
      cs: "pending (sess w') = pending (sess w3) @ cs"
          "\<forall>c\<in>set cs. staged_by_diff env site S (ticks w3) (ticks w') c"
          "\<forall>e\<in>set es. url e \<in> dom S \<and> pages (db w3) (site_id site, url e) \<noteq> None \<longrightarrow>
             (\<exists>t. Set_last_seen (site_id site) (url e) t \<in> set cs)"
      by blast
    have w3: "pending (sess w3) = pending (sess w) @ [Add_page page]" "db w3 = db w"
      "ticks w3 = Suc (Suc (ticks w))"
      by (simp_all add: w3_def add_def)
    have s0: "staged_by_diff env site S (ticks w) (ticks w') (Add_page page)"
      using False by (auto simp: staged_by_diff_def page_def)
    have s1: "\<forall>c\<in>set cs. staged_by_diff env site S (ticks w) (ticks w') c"
      using cs(2) w3(3) by (auto intro: staged_by_diff_mono)
    show ?thesis
      apply (rule exI[of _ "Add_page page # cs"])
      using cs(1,3) w3 s0 s1 False by auto
  qed
qed

lemma apply_changes_keeps:
  "apply_changes cs d = Inr d' \<Longrightarrow> pages d (s, u) = Some p \<Longrightarrow>
   (\<forall>c\<in>set cs. \<forall>t. c \<noteq> Set_last_seen s u t) \<Longrightarrow> pages d' (s, u) = Some p"
proof (induction cs arbitrary: d)
  case Nil
  then show ?case by simp
next
  case (Cons c cs)
  from Cons.prems(1) obtain d1 where
    d1: "apply_change c d = Inr d1" "apply_changes cs d1 = Inr d'"
    by (auto split: sum.splits)
  have "pages d1 (s, u) = Some p"
    using d1(1) Cons.prems(2,3)
    by (cases c) (auto split: if_splits option.splits)
  from Cons.IH[OF d1(2) this] Cons.prems(3) show ?case by simp
qed

lemma apply_changes_added:
  "apply_changes cs d = Inr d' \<Longrightarrow> p \<in> set (added_pages cs) \<Longrightarrow>
   (\<forall>c\<in>set cs. \<forall>t. c \<noteq> Set_last_seen (monitored_site_id p) (page_url p) t) \<Longrightarrow>
   pages d' (monitored_site_id p, page_url p) = Some p"
proof (induction cs arbitrary: d)
  case Nil
  then show ?case by simp
next
  case (Cons c cs)
  from Cons.prems(1) obtain d1 where
    d1: "apply_change c d = Inr d1" "apply_changes cs d1 = Inr d'"
    by (auto split: sum.splits)
  have ap: "added_pages (c # cs) = added_pages [c] @ added_pages cs"
    using added_pages_append[of "[c]" cs] by simp
  show ?case
  proof (cases "c = Add_page p")
    case True
    with d1(1) have "pages d1 (monitored_site_id p, page_url p) = Some p"
      by (auto split: if_splits)
    from apply_changes_keeps[OF d1(2) this] Cons.prems(3) show ?thesis by simp
  next
    case False
    with Cons.prems(2) ap have "p \<in> set (added_pages cs)"
      by (cases c) auto
    from Cons.IH[OF d1(2) this] Cons.prems(3) show ?thesis by simp
  qed
qed

lemma example_leaves_more:
  "leaf_entries (example_env up) ''http://x/i'' = []"
  "leaf_entries (example_env up) ''http://x/c.gz'' = []"
  by (simp_all add: leaf_entries_def example_fetch is_sitemap_index_def)
     (simp_all add: example_env_def suffix_to_prefix)

lemma example_walk:
  "walk_from 6 (example_env up) ''http://x/i'' ''http://x'' =
     Some \<lparr>processed_sitemaps = {''http://x/i'', ''http://x/b'', ''http://x/a'', ''http://x/c.gz'',
                                    ''http://x/d.gz''},
           all_urls = example_entries,
           fetched = [''http://x/i'', ''http://x/b'', ''http://x/a'', ''http://x/c.gz'',
                      ''http://x/d.gz'']\<rparr>"
  unfolding walk_from_def
  by (simp add: eval_nat_numeral process_sitemap_Suc example_children example_leaves
        example_leaves_more example_entries_def insert_commute del: process_sitemap.simps)

lemma example_site_entries:
  "site_entries 6 (example_env up) example_site = Some example_entries"
  by (simp add: site_entries_def extract_urls_from_sitemap_def fetch_and_parse_sitemap_def
        example_walk example_site_def)

lemma example_env_fields:
  "db_ok (example_env up) k = up k" "clock (example_env up) k = 100 + int k"
  "GITHUB_RUN_ID (example_env up) = None"
  by (simp_all add: example_env_def)

lemma example_site_fields:
  "site_id example_site = 1" "is_notification_enabled example_site = 1"
  by (simp_all add: example_site_def)

lemma apply_changes_refreshes_total:
  "(\<forall>c\<in>set cs. \<exists>s u t. c = Set_last_seen s u t \<and> pages d (s, u) \<noteq> None) \<Longrightarrow>
   \<exists>d'. apply_changes cs d = Inr d' \<and> sites d' = sites d \<and> logs d' = logs d \<and>
        (\<forall>k. pages d' k \<noteq> None \<longleftrightarrow> pages d k \<noteq> None)"
proof (induction cs arbitrary: d)
  case Nil
  then show ?case by simp
next
  case (Cons c cs)
  from Cons.prems obtain s u t p where
    c: "c = Set_last_seen s u t" "pages d (s, u) = Some p" by auto
  define d1 where "d1 = d\<lparr>pages := (pages d)((s, u) \<mapsto> p\<lparr>last_seen_at := t\<rparr>)\<rparr>"
  have a: "apply_change c d = Inr d1" using c by (simp add: d1_def)
  have k: "\<forall>k. pages d1 k \<noteq> None \<longleftrightarrow> pages d k \<noteq> None"
    using c(2) by (auto simp: d1_def)
  have "\<forall>c\<in>set cs. \<exists>s u t. c = Set_last_seen s u t \<and> pages d1 (s, u) \<noteq> None"
    using Cons.prems k by auto
  from Cons.IH[OF this] obtain d' where
    "apply_changes cs d1 = Inr d'" "sites d' = sites d1" "logs d' = logs d1"
    "\<forall>k. pages d' k \<noteq> None \<longleftrightarrow> pages d1 k \<noteq> None"
    by blast
  with a k show ?case by (auto simp: d1_def)
qed

lemma apply_changes_refreshed:
  "apply_changes cs d = Inr d' \<Longrightarrow> pages d (s, u) = Some p \<Longrightarrow>
   (\<forall>t. Set_last_seen s u t \<in> set cs \<longrightarrow> T t) \<Longrightarrow>
   T (last_seen_at p) \<or> (\<exists>t. Set_last_seen s u t \<in> set cs) \<Longrightarrow>
   \<exists>p'. pages d' (s, u) = Some p' \<and> T (last_seen_at p')"
proof (induction cs arbitrary: d p)
  case Nil
  then show ?case by simp
next
  case (Cons c cs)
  from Cons.prems(1) obtain d1 where
    d1: "apply_change c d = Inr d1" "apply_changes cs d1 = Inr d'"
    by (auto split: sum.splits)
  have T': "\<forall>t. Set_last_seen s u t \<in> set cs \<longrightarrow> T t" using Cons.prems(3) by simp
  show ?case
  proof (cases "\<exists>t. c = Set_last_seen s u t")
    case True
    then obtain t where c: "c = Set_last_seen s u t" by blast
    with d1(1) Cons.prems(2) have p1: "pages d1 (s, u) = Some (p\<lparr>last_seen_at := t\<rparr>)"
      by auto
    have "T t" using Cons.prems(3) c by simp
    then have "T (last_seen_at (p\<lparr>last_seen_at := t\<rparr>)) \<or> (\<exists>t. Set_last_seen s u t \<in> set cs)"
      by simp
    from Cons.IH[OF d1(2) p1 T' this] show ?thesis .
  next
    case False
    have p1: "pages d1 (s, u) = Some p"
      using d1(1) Cons.prems(2) False
      by (cases c) (auto split: if_splits option.splits)
    have "T (last_seen_at p) \<or> (\<exists>t. Set_last_seen s u t \<in> set cs)"
      using Cons.prems(4) False by auto
    from Cons.IH[OF d1(2) p1 T' this] show ?thesis .
  qed
qed

lemma apply_changes_present:
  "apply_changes cs d = Inr d' \<Longrightarrow> pages d k \<noteq> None \<Longrightarrow> pages d' k \<noteq> None"
proof (induction cs arbitrary: d)
  case Nil
  then show ?case by simp
next
  case (Cons c cs)
  from Cons.prems(1) obtain d1 where
    d1: "apply_change c d = Inr d1" "apply_changes cs d1 = Inr d'"
    by (auto split: sum.splits)
  have "pages d1 k \<noteq> None"
    using d1(1) Cons.prems(2)
    by (cases c) (auto split: if_splits option.splits)
  from Cons.IH[OF d1(2) this] show ?case .
qed

lemma added_pages_empty:
  "added_pages cs = [] \<Longrightarrow> c \<in> set cs \<Longrightarrow> c \<noteq> Add_page p"
  by (induction cs) (auto simp: added_pages_def split: change.splits)

lemma get_existing_urls_up:
  "db_ok env (round_trips w) \<Longrightarrow>
   get_existing_urls env sid w =
     (Inr (\<lambda>u. map_option last_seen_at (pages (db w) (sid, u))),
      w\<lparr>round_trips := Suc (round_trips w), sess := (sess w)\<lparr>in_transaction := True\<rparr>\<rparr>)"
  by (simp add: get_existing_urls_def query_def round_trip_def then_do_def)

lemma get_existing_urls_Inr:
  "get_existing_urls env sid w = (Inr S, w') \<Longrightarrow>
   S = (\<lambda>u. map_option last_seen_at (pages (db w) (sid, u))) \<and> db w' = db w \<and>
   ticks w' = ticks w \<and> pending (sess w') = pending (sess w)"
  by (auto simp: get_existing_urls_def query_def round_trip_def then_do_def split: if_splits)

lemma commit_up:
  "\<forall>k. db_ok env k \<Longrightarrow> apply_changes (pending (sess w)) (db w) = Inr d \<Longrightarrow>
   \<exists>w'. commit env w = (Inr (), w') \<and> db w' = d \<and> ticks w' = ticks w \<and>
        pending (sess w') = []"
  by (auto simp: commit_def round_trip_def fresh_session_def)

lemma commit_cycle_up:
  assumes up: "\<forall>k. db_ok env k"
    and a: "apply_changes (pending (sess w)) (db w) = Inr d"
    and s: "sites d (site_id site) \<noteq> None"
  shows "\<exists>w'. commit_cycle env site w = (Inr (), w') \<and> pages (db w') = pages d"
proof -
  from commit_up[OF up a] obtain w1 where
    w1: "commit env w = (Inr (), w1)" "db w1 = d" "ticks w1 = ticks w" "pending (sess w1) = []"
    by blast
  define w2 where "w2 = add (Set_last_crawled (site_id site) (clock env (ticks w1)))
                           (w1\<lparr>ticks := Suc (ticks w1)\<rparr>)"
  from s obtain st where st: "sites d (site_id site) = Some st" by auto
  have "apply_changes (pending (sess w2)) (db w2) =
          Inr (d\<lparr>sites := (sites d)(site_id site \<mapsto> st\<lparr>last_crawled_at := Some (clock env (ticks w1))\<rparr>)\<rparr>)"
    using w1 st by (simp add: w2_def add_def)
  from commit_up[OF up this] obtain w' where
    "commit env w2 = (Inr (), w')" "pages (db w') = pages d" by auto
  with w1(1) show ?thesis
    by (auto simp: commit_cycle_def then_do_def update_site_last_crawled_def utc_now_def w2_def)
qed

lemma run_diff_Inr:
  assumes "run_diff env site E w = (Inr new_pages, w')"
  shows "\<exists>S wa wb. get_existing_urls env (site_id site) (w\<lparr>sess := fresh_session\<rparr>) = (Inr S, wa) \<and>
           diff_entries env site S E [] wa = (Inr new_pages, wb) \<and>
           commit_cycle env site wb = (Inr (), w')"
  using assms unfolding run_diff_def
  by (auto simp: then_do_eq_Inr)

lemma first_run_leaves_pages:
  assumes r1: "run_diff env site E w = (Inr new1, w1)"
  shows "(\<forall>e\<in>set E. pages (db w1) (site_id site, url e) \<noteq> None) \<and>
         sites (db w1) (site_id site) \<noteq> None"
proof -
  let ?sid = "site_id site"
  from run_diff_Inr[OF r1] obtain S wa wb where
    g: "get_existing_urls env ?sid (w\<lparr>sess := fresh_session\<rparr>) = (Inr S, wa)" and
    d: "diff_entries env site S E [] wa = (Inr new1, wb)" and
    c: "commit_cycle env site wb = (Inr (), w1)"
    by blast
  from get_existing_urls_Inr[OF g] have
    S: "S = (\<lambda>u. map_option last_seen_at (pages (db w) (?sid, u)))" and
    wa: "db wa = db w" "pending (sess wa) = []"
    by (simp_all add: fresh_session_def)
  from diff_entries_Inr[OF d] obtain new where
    n: "new1 = [] @ new" "map page_url new = map url (spec_new S E)" "db wb = db wa"
       "added_pages (pending (sess wb)) = added_pages (pending (sess wa)) @ new"
       "\<forall>p\<in>set new. created_page env site (ticks wa) (ticks wb) p"
    by blast
  from diff_entries_staged[OF d] wa(2) obtain cs where
    cs: "pending (sess wb) = cs" "\<forall>c\<in>set cs. staged_by_diff env site S (ticks wa) (ticks wb) c"
    by auto
  from commit_cycle_cases[OF c] obtain dd where
    dd: "apply_changes cs (db wb) = Inr dd"
        "apply_change (Set_last_crawled ?sid (clock env (ticks wb))) dd = Inr (db w1)"
    using cs(1) by auto
  from dd(2) have pg: "pages (db w1) = pages dd" and st: "sites (db w1) ?sid \<noteq> None"
    by (auto split: option.splits simp: eq_commute[where b="db w1"])
  have "pages dd (?sid, url e) \<noteq> None" if e: "e \<in> set E" for e
  proof (cases "url e \<in> dom S")
    case True
    then have "pages (db wb) (?sid, url e) \<noteq> None" using S n(3) wa(1) by auto
    from apply_changes_present[OF dd(1) this] show ?thesis .
  next
    case False
    with e have "url e \<in> set (map url (spec_new S E))" by (auto simp: spec_new_def)
    then have "url e \<in> set (map page_url new)" using n(2) by simp
    then obtain p where p: "p \<in> set new" "page_url p = url e" by auto
    have ps: "monitored_site_id p = ?sid" using n(5) p(1) by (auto simp: created_page_def)
    have pa: "p \<in> set (added_pages cs)" using n(4) wa(2) cs(1) p(1) by simp
    have "\<forall>c\<in>set cs. \<forall>t. c \<noteq> Set_last_seen (monitored_site_id p) (page_url p) t"
      using cs(2) False p(2) by (auto simp: staged_by_diff_def)
    from apply_changes_added[OF dd(1) pa this] ps p(2) show ?thesis by simp
  qed
  with pg st show ?thesis by simp
qed

lemma second_run_refreshes:
  assumes up: "\<forall>k. db_ok env k"
    and pr: "\<forall>e\<in>set E. pages (db w1) (site_id site, url e) \<noteq> None"
    and st: "sites (db w1) (site_id site) \<noteq> None"
  shows "\<exists>w2. run_diff env site E w1 = (Inr [], w2) \<and>
              (\<forall>e\<in>set E. \<exists>p k. pages (db w2) (site_id site, url e) = Some p \<and>
                                  ticks w1 \<le> k \<and> last_seen_at p = clock env k)"
proof -
  let ?sid = "site_id site"
  let ?w = "w1\<lparr>sess := fresh_session\<rparr>"
  define S where "S = (\<lambda>u. map_option last_seen_at (pages (db w1) (?sid, u)))"
  define wa where "wa = ?w\<lparr>round_trips := Suc (round_trips ?w),
                             sess := (sess ?w)\<lparr>in_transaction := True\<rparr>\<rparr>"
  have g: "get_existing_urls env ?sid ?w = (Inr S, wa)"
    using up get_existing_urls_up[of env ?w ?sid] by (simp add: S_def wa_def)
  have wa: "db wa = db w1" "ticks wa = ticks w1" "pending (sess wa) = []"
    by (simp_all add: wa_def fresh_session_def)
  have dom: "\<forall>e\<in>set E. url e \<in> dom S" using pr by (auto simp: S_def)
  then have sn: "spec_new S E = []" by (auto simp: spec_new_def)
  from diff_entries_no_fault[OF up] obtain r wb where
    d: "diff_entries env site S E [] wa = (Inr r, wb)" by blast
  from diff_entries_Inr[OF d] obtain new where
    n: "r = [] @ new" "map page_url new = map url (spec_new S E)" "db wb = db wa"
       "added_pages (pending (sess wb)) = added_pages (pending (sess wa)) @ new"
    by blast
  from n(1,2) sn have r: "r = []" by simp
  from n(4) n(1) r wa(3) have ap: "added_pages (pending (sess wb)) = []" by simp
  from diff_entries_staged[OF d] wa(3) obtain cs where
    cs: "pending (sess wb) = cs" "\<forall>c\<in>set cs. staged_by_diff env site S (ticks wa) (ticks wb) c"
        "\<forall>e\<in>set E. url e \<in> dom S \<and> pages (db wa) (?sid, url e) \<noteq> None \<longrightarrow>
           (\<exists>t. Set_last_seen ?sid (url e) t \<in> set cs)"
    by auto
  have shape: "\<exists>u k. c = Set_last_seen ?sid u (clock env k) \<and> u \<in> dom S \<and> ticks w1 \<le> k"
    if c: "c \<in> set cs" for c
  proof -
    from cs(2) c have s: "staged_by_diff env site S (ticks wa) (ticks wb) c" by simp
    from added_pages_empty[OF ap] c cs(1) have "\<forall>p. c \<noteq> Add_page p" by auto
    with s wa(2) show ?thesis by (cases c) (auto simp: staged_by_diff_def)
  qed
  have tot: "\<forall>c\<in>set cs. \<exists>s u t. c = Set_last_seen s u t \<and> pages (db wb) (s, u) \<noteq> None"
  proof
    fix c assume "c \<in> set cs"
    from shape[OF this] obtain u k where
      "c = Set_last_seen ?sid u (clock env k)" "u \<in> dom S" by blast
    then show "\<exists>s u t. c = Set_last_seen s u t \<and> pages (db wb) (s, u) \<noteq> None"
      using n(3) wa(1) by (auto simp: S_def)
  qed
  from apply_changes_refreshes_total[OF tot] obtain dd where
    dd: "apply_changes cs (db wb) = Inr dd" "sites dd = sites (db wb)" by blast
  have "sites dd ?sid \<noteq> None" using dd(2) n(3) wa(1) st by simp
  from commit_cycle_up[OF up _ this, of wb] dd(1) cs(1) obtain w2 where
    w2: "commit_cycle env site wb = (Inr (), w2)" "pages (db w2) = pages dd" by auto
  have run: "run_diff env site E w1 = (Inr [], w2)"
    using g d r w2(1) by (simp add: run_diff_def then_do_def)
  have "\<exists>p k. pages (db w2) (?sid, url e) = Some p \<and> ticks w1 \<le> k \<and> last_seen_at p = clock env k"
    if e: "e \<in> set E" for e
  proof -
    from pr e obtain p0 where p0: "pages (db wb) (?sid, url e) = Some p0"
      using n(3) wa(1) by auto
    have T: "\<forall>t. Set_last_seen ?sid (url e) t \<in> set cs \<longrightarrow> (\<exists>k. ticks w1 \<le> k \<and> t = clock env k)"
      using shape by fastforce
    have ex: "\<exists>t. Set_last_seen ?sid (url e) t \<in> set cs"
      using cs(3) e dom pr wa(1) by auto
    from apply_changes_refreshed[OF dd(1) p0, of "\<lambda>t. \<exists>k. ticks w1 \<le> k \<and> t = clock env k"] T ex
    obtain p' k where "pages dd (?sid, url e) = Some p'" "ticks w1 \<le> k" "last_seen_at p' = clock env k"
      by auto
    with w2(2) show ?thesis by auto
  qed
  with run show ?thesis by blast
qed

section \<open>The claims\<close>

text \<open>
  C2. Where the sitemap URLs that can be referred to form a finite set \<open>U\<close> (the sitemap URL
  of the site, and every reference of an index fetched from a URL in \<open>U\<close>, cycles
  included), the walk returns within any depth bound above the size of \<open>U\<close>; it has then
  fetched pairwise distinct URLs, all of them in \<open>U\<close>, hence no more than \<open>U\<close> has
  elements, and \<open>fetch_and_parse_sitemap\<close> returns the entries and the set of these URLs.
\<close>

theorem walk_terminates_fetching_once:
  assumes "finite U" and "root_url \<in> U"
    and "\<forall>v\<in>U. set (child_sitemaps env base v) \<subseteq> U"
    and "card U < n"
  shows "\<exists>st. walk_from n env root_url base = Some st \<and>
              fetch_and_parse_sitemap n env root_url base = Some (all_urls st, set (fetched st)) \<and>
              distinct (fetched st) \<and> set (fetched st) \<subseteq> U \<and> length (fetched st) \<le> card U"
proof -
  have "card (U - processed_sitemaps \<lparr>processed_sitemaps = {}, all_urls = [], fetched = []\<rparr>) < n"
    using assms(4) by simp
  from process_sitemap_returns[OF assms(1,3,2) this] obtain st where
    st: "walk_from n env root_url base = Some st" "processed_sitemaps st \<subseteq> U"
    unfolding walk_from_def by auto
  have d: "distinct (fetched st)" and p: "processed_sitemaps st = set (fetched st)"
    using walk_from_extends[OF st(1)] by blast+
  have "length (fetched st) = card (set (fetched st))"
    using d by (simp add: distinct_card)
  also have "\<dots> \<le> card U" using st(2) p assms(1) by (simp add: card_mono)
  finally have l: "length (fetched st) \<le> card U" .
  have "fetch_and_parse_sitemap n env root_url base = Some (all_urls st, set (fetched st))"
    using st(1) p by (simp add: fetch_and_parse_sitemap_def)
  with st d p l show ?thesis by auto
qed

theorem walk_terminates_fetching_once_witness:
  "finite example_urls \<and> ''http://x/i'' \<in> example_urls \<and>
   (\<Union>v\<in>example_urls. set (child_sitemaps (example_env (\<lambda>k. True)) [] v)) \<subseteq> example_urls \<and>
   card example_urls < 6 \<and>
   (\<exists>st. walk_from 6 (example_env (\<lambda>k. True)) ''http://x/i'' [] = Some st \<and>
         fetch_and_parse_sitemap 6 (example_env (\<lambda>k. True)) ''http://x/i'' [] = Some (all_urls st, set (fetched st)) \<and>
         distinct (fetched st) \<and> set (fetched st) \<subseteq> example_urls \<and>
         length (fetched st) \<le> card example_urls)"
proof -
  have 1: "finite example_urls" by (simp add: example_urls_def)
  have 2: "''http://x/i'' \<in> example_urls" by (simp add: example_urls_def)
  have 3: "card example_urls < 6" by (simp add: example_card)
  have 4: "(\<Union>v\<in>example_urls. set (child_sitemaps (example_env (\<lambda>k. True)) [] v)) \<subseteq> example_urls"
    using example_closed[of "\<lambda>k. True" "[]"] by blast
  from walk_terminates_fetching_once[OF 1 2 example_closed[of "\<lambda>k. True" "[]"] 3] 1 2 3 4
  show ?thesis by blast
qed

text \<open>
  C10. A call of \<open>process_sitemap\<close> that returns leaves its URL in the visited set, and
  a later call for the same URL returns the state as it is, without a fetch; a URL that
  was not visited and whose fetch gives nothing is added to the visited set and to the
  fetched URLs, and nothing else changes. After a walk the visited set is the set of the
  URLs handed to \<open>fetch_sitemap\<close>, each handed over once, whatever the fetch gave, and
  this set is the second component of what \<open>fetch_and_parse_sitemap\<close> returns.
\<close>

theorem visited_before_fetch:
  "(process_sitemap n env base u st = Some st' \<longrightarrow>
      u \<in> processed_sitemaps st' \<and> set (fetched st) \<subseteq> set (fetched st') \<and>
      process_sitemap (Suc m) env base u st' = Some st') \<and>
   (u \<notin> processed_sitemaps st \<and> fetch_sitemap env u = None \<longrightarrow>
      process_sitemap (Suc n) env base u st =
        Some (st\<lparr>processed_sitemaps := insert u (processed_sitemaps st),
                  fetched := fetched st @ [u]\<rparr>)) \<and>
   (walk_from n env r base = Some st' \<longrightarrow>
      processed_sitemaps st' = set (fetched st') \<and> distinct (fetched st') \<and>
      card (processed_sitemaps st') = length (fetched st') \<and>
      fetch_and_parse_sitemap n env r base = Some (all_urls st', set (fetched st')))"
proof (intro conjI impI)
  assume a: "process_sitemap n env base u st = Some st'"
  from process_sitemap_extends[OF a] obtain new where
    e: "extends env base st st' new" and m: "u \<in> processed_sitemaps st'" by blast
  show "u \<in> processed_sitemaps st'" by (rule m)
  show "set (fetched st) \<subseteq> set (fetched st')" using e by (auto simp: extends_def)
  show "process_sitemap (Suc m) env base u st' = Some st'" using m by simp
next
  assume "u \<notin> processed_sitemaps st \<and> fetch_sitemap env u = None"
  then show "process_sitemap (Suc n) env base u st =
        Some (st\<lparr>processed_sitemaps := insert u (processed_sitemaps st),
                  fetched := fetched st @ [u]\<rparr>)"
    by simp
next
  assume w: "walk_from n env r base = Some st'"
  show p: "processed_sitemaps st' = set (fetched st')" using walk_from_extends(2)[OF w] .
  show d: "distinct (fetched st')" using walk_from_extends(1)[OF w] .
  show "card (processed_sitemaps st') = length (fetched st')" using p d by (simp add: distinct_card)
  show "fetch_and_parse_sitemap n env r base = Some (all_urls st', set (fetched st'))"
    using w p by (simp add: fetch_and_parse_sitemap_def)
qed

theorem visited_before_fetch_witness:
  "''http://x/b'' \<notin> processed_sitemaps \<lparr>processed_sitemaps = {}, all_urls = [], fetched = []\<rparr> \<and>
   fetch_sitemap (example_env (\<lambda>k. True)) ''http://x/b'' = None \<and>
   process_sitemap (Suc 0) (example_env (\<lambda>k. True)) [] ''http://x/b''
     \<lparr>processed_sitemaps = {}, all_urls = [], fetched = []\<rparr> = Some after_b \<and>
   ''http://x/b'' \<in> processed_sitemaps after_b \<and>
   process_sitemap (Suc 0) (example_env (\<lambda>k. True)) [] ''http://x/b'' after_b = Some after_b \<and>
   (\<exists>st'. walk_from 6 (example_env (\<lambda>k. True)) ''http://x/i'' [] = Some st' \<and>
      processed_sitemaps st' = set (fetched st') \<and> distinct (fetched st') \<and>
      card (processed_sitemaps st') = length (fetched st'))"
proof -
  let ?st0 = "\<lparr>processed_sitemaps = {}, all_urls = [], fetched = []\<rparr>"
  have f: "fetch_sitemap (example_env (\<lambda>k. True)) ''http://x/b'' = None" by (rule example_fetch)
  have n: "''http://x/b'' \<notin> processed_sitemaps ?st0" by simp
  have 1: "process_sitemap (Suc 0) (example_env (\<lambda>k. True)) [] ''http://x/b'' ?st0 = Some after_b"
    using visited_before_fetch[of 0 "example_env (\<lambda>k. True)" "[]" "''http://x/b''" ?st0 after_b 0 "[]"] n f
    by (simp add: after_b_def)
  have 2: "''http://x/b'' \<in> processed_sitemaps after_b \<and>
           process_sitemap (Suc 0) (example_env (\<lambda>k. True)) [] ''http://x/b'' after_b = Some after_b"
    using visited_before_fetch[of "Suc 0" "example_env (\<lambda>k. True)" "[]" "''http://x/b''" ?st0 after_b 0 "[]"] 1
    by blast
  obtain st' where w: "walk_from 6 (example_env (\<lambda>k. True)) ''http://x/i'' [] = Some st'"
    using example_walk_returns by blast
  have 3: "processed_sitemaps st' = set (fetched st') \<and> distinct (fetched st') \<and>
      card (processed_sitemaps st') = length (fetched st')"
    using visited_before_fetch[of 6 "example_env (\<lambda>k. True)" "[]" "''http://x/i''" ?st0 st' 0 "''http://x/i''"] w
    by blast
  show ?thesis using n f 1 2 w 3 by blast
qed

text \<open>
  C5. Where the sitemap URLs that can be referred to form a finite set, the walk returns,
  whatever the fetches give. A URL whose fetch fails has no entries and no references, and
  it does not end the walk: the sitemap URL of the site has been visited, and so has every
  reference of every visited index, the ones listed after a failed one included. The
  entries returned are those of the leaves that were fetched, in the order of the fetches:
  as a set, the union of the entries of the visited URLs, where a failed fetch gives none
  and a fetched leaf gives what \<open>parse_sitemap\<close> reads from its content.
\<close>

theorem failed_nodes_contribute_nothing:
  assumes "finite U" and "root_url \<in> U"
    and "\<forall>v\<in>U. set (child_sitemaps env base v) \<subseteq> U"
    and "card U < n"
  shows "\<exists>st. walk_from n env root_url base = Some st \<and>
              root_url \<in> processed_sitemaps st \<and>
              (\<forall>v\<in>processed_sitemaps st. set (child_sitemaps env base v) \<subseteq> processed_sitemaps st) \<and>
              all_urls st = concat (map (leaf_entries env) (fetched st)) \<and>
              set (all_urls st) = (\<Union>v\<in>processed_sitemaps st. set (leaf_entries env v)) \<and>
              (\<forall>v. fetch_sitemap env v = None \<longrightarrow>
                     leaf_entries env v = [] \<and> child_sitemaps env base v = []) \<and>
              (\<forall>v c. fetch_sitemap env v = Some c \<and> c \<noteq> [] \<and> \<not> is_sitemap_index env c \<longrightarrow>
                     leaf_entries env v = parse_sitemap env c)"
proof -
  have "card (U - processed_sitemaps \<lparr>processed_sitemaps = {}, all_urls = [], fetched = []\<rparr>) < n"
    using assms(4) by simp
  from process_sitemap_returns[OF assms(1,3,2) this] obtain st where
    st: "walk_from n env root_url base = Some st"
    unfolding walk_from_def by auto
  note w = walk_from_extends[OF st]
  have a: "set (all_urls st) = (\<Union>v\<in>processed_sitemaps st. set (leaf_entries env v))"
    using w(2,3) by simp
  have b: "\<forall>v. fetch_sitemap env v = None \<longrightarrow>
                     leaf_entries env v = [] \<and> child_sitemaps env base v = []"
    by (simp add: leaf_entries_def child_sitemaps_def)
  have c: "\<forall>v c. fetch_sitemap env v = Some c \<and> c \<noteq> [] \<and> \<not> is_sitemap_index env c \<longrightarrow>
                     leaf_entries env v = parse_sitemap env c"
    by (simp add: leaf_entries_def)
  show ?thesis
    by (rule exI[of _ st]) (intro conjI st w(5) w(4) w(3) a b c)
qed

theorem failed_nodes_contribute_nothing_witness:
  "finite example_urls \<and> ''http://x/i'' \<in> example_urls \<and> card example_urls < 6 \<and>
   (\<Union>v\<in>example_urls. set (child_sitemaps (example_env (\<lambda>k. True)) [] v)) \<subseteq> example_urls \<and>
   fetch_sitemap (example_env (\<lambda>k. True)) ''http://x/b'' = None \<and>
   (\<exists>st. walk_from 6 (example_env (\<lambda>k. True)) ''http://x/i'' [] = Some st \<and>
         ''http://x/b'' \<in> processed_sitemaps st \<and>
         ''http://x/a'' \<in> processed_sitemaps st \<and>
         leaf_entries (example_env (\<lambda>k. True)) ''http://x/b'' = [] \<and>
         set (leaf_entries (example_env (\<lambda>k. True)) ''http://x/a'') \<subseteq> set (all_urls st))"
proof -
  have 1: "finite example_urls" by (simp add: example_urls_def)
  have 2: "''http://x/i'' \<in> example_urls" by (simp add: example_urls_def)
  have 3: "card example_urls < 6" by (simp add: example_card)
  have 4: "(\<Union>v\<in>example_urls. set (child_sitemaps (example_env (\<lambda>k. True)) [] v)) \<subseteq> example_urls"
    using example_closed[of "\<lambda>k. True" "[]"] by blast
  from failed_nodes_contribute_nothing[OF 1 2 example_closed[of "\<lambda>k. True" "[]"] 3] obtain st where
    st: "walk_from 6 (example_env (\<lambda>k. True)) ''http://x/i'' [] = Some st"
        "''http://x/i'' \<in> processed_sitemaps st"
        "\<forall>v\<in>processed_sitemaps st. set (child_sitemaps (example_env (\<lambda>k. True)) [] v) \<subseteq> processed_sitemaps st"
        "set (all_urls st) = (\<Union>v\<in>processed_sitemaps st. set (leaf_entries (example_env (\<lambda>k. True)) v))"
        "\<forall>v. fetch_sitemap (example_env (\<lambda>k. True)) v = None \<longrightarrow>
               leaf_entries (example_env (\<lambda>k. True)) v = [] \<and> child_sitemaps (example_env (\<lambda>k. True)) [] v = []"
    by blast
  have "set (child_sitemaps (example_env (\<lambda>k. True)) [] ''http://x/i'') \<subseteq> processed_sitemaps st"
    using st(2,3) by (rule_tac bspec)
  then have b: "''http://x/b'' \<in> processed_sitemaps st" and a: "''http://x/a'' \<in> processed_sitemaps st"
    by (simp_all add: example_children)
  have lb: "leaf_entries (example_env (\<lambda>k. True)) ''http://x/b'' = []" using st(5) example_fetch(2) by simp
  have la: "set (leaf_entries (example_env (\<lambda>k. True)) ''http://x/a'') \<subseteq> set (all_urls st)"
    unfolding st(4) using a by (rule UN_upper)
  show ?thesis
    by (intro conjI 1 2 3 4 example_fetch(2) exI[of _ st] st(1) a b la lb)
qed

text \<open>
  C9. When the request for a sitemap URL returns a response and the content type of the
  response is \<open>application/x-gzip\<close> or the URL ends in \<open>.gz\<close>, what \<open>fetch_sitemap\<close>
  returns, and hence what the walk classifies and parses, is the decompressed content. If
  the content does not decompress, \<open>fetch_sitemap\<close> returns \<open>None\<close>, and
  \<open>process_sitemap\<close> returns with the URL visited and no entry added.
\<close>

theorem gzip_is_decompressed_before_parsing:
  assumes "snd (make_request env ''GET'' u None) = Inr r"
    and "headers r ''Content-Type'' = Some ''application/x-gzip'' \<or> suffix ''.gz'' u"
  shows "fetch_sitemap env u = gunzip env (content r) \<and>
         (\<forall>d. gunzip env (content r) = Some d \<longrightarrow>
            leaf_entries env u = (if d = [] \<or> is_sitemap_index env d then [] else parse_sitemap env d) \<and>
            child_sitemaps env base u =
              (if d \<noteq> [] \<and> is_sitemap_index env d then parse_sitemap_index env d base else []) \<and>
            (u \<notin> processed_sitemaps st \<and> d \<noteq> [] \<and> \<not> is_sitemap_index env d \<longrightarrow>
               process_sitemap (Suc n) env base u st =
                 Some (st\<lparr>processed_sitemaps := insert u (processed_sitemaps st),
                           fetched := fetched st @ [u],
                           all_urls := all_urls st @ parse_sitemap env d\<rparr>))) \<and>
         (gunzip env (content r) = None \<and> u \<notin> processed_sitemaps st \<longrightarrow>
            process_sitemap (Suc n) env base u st =
              Some (st\<lparr>processed_sitemaps := insert u (processed_sitemaps st),
                        fetched := fetched st @ [u]\<rparr>))"
proof -
  have f: "fetch_sitemap env u = gunzip env (content r)"
    using assms by (auto simp: fetch_sitemap_def split: option.splits)
  show ?thesis
    by (simp add: f leaf_entries_def child_sitemaps_def)
qed

theorem gzip_is_decompressed_before_parsing_witness:
  "snd (make_request (example_env (\<lambda>k. True)) ''GET'' ''http://x/d.gz'' None) =
     Inr \<lparr>status_code = 200, headers = Map.empty, content = ''ZIPPED''\<rparr> \<and>
   suffix ''.gz'' ''http://x/d.gz'' \<and>
   gunzip (example_env (\<lambda>k. True)) ''ZIPPED'' = Some ''LEAF2'' \<and>
   fetch_sitemap (example_env (\<lambda>k. True)) ''http://x/d.gz'' = Some ''LEAF2'' \<and>
   process_sitemap (Suc 0) (example_env (\<lambda>k. True)) [] ''http://x/d.gz''
       \<lparr>processed_sitemaps = {}, all_urls = [], fetched = []\<rparr> =
     Some \<lparr>processed_sitemaps = {''http://x/d.gz''},
           all_urls = parse_sitemap (example_env (\<lambda>k. True)) ''LEAF2'', fetched = [''http://x/d.gz'']\<rparr> \<and>
   snd (make_request (example_env (\<lambda>k. True)) ''GET'' ''http://x/c.gz'' None) =
     Inr \<lparr>status_code = 200, headers = Map.empty, content = ''CORRUPT''\<rparr> \<and>
   suffix ''.gz'' ''http://x/c.gz'' \<and>
   gunzip (example_env (\<lambda>k. True)) ''CORRUPT'' = None \<and>
   process_sitemap (Suc 0) (example_env (\<lambda>k. True)) [] ''http://x/c.gz''
       \<lparr>processed_sitemaps = {}, all_urls = [], fetched = []\<rparr> =
     Some \<lparr>processed_sitemaps = {''http://x/c.gz''}, all_urls = [], fetched = [''http://x/c.gz'']\<rparr>"
proof -
  let ?st0 = "\<lparr>processed_sitemaps = {}, all_urls = [], fetched = []\<rparr>"
  have sd: "suffix ''.gz'' ''http://x/d.gz''" and sc: "suffix ''.gz'' ''http://x/c.gz''"
    by (simp_all add: suffix_to_prefix)
  have d: "fetch_sitemap (example_env (\<lambda>k. True)) ''http://x/d.gz'' = Some ''LEAF2'' \<and>
           process_sitemap (Suc 0) (example_env (\<lambda>k. True)) [] ''http://x/d.gz'' ?st0 =
             Some \<lparr>processed_sitemaps = {''http://x/d.gz''},
                   all_urls = parse_sitemap (example_env (\<lambda>k. True)) ''LEAF2'', fetched = [''http://x/d.gz'']\<rparr>"
    using gzip_is_decompressed_before_parsing[OF example_request_d(1)[of "\<lambda>k. True"] disjI2[OF sd],
        of "[]" ?st0 0] example_gunzip(1) example_index_d
    by simp
  have c: "process_sitemap (Suc 0) (example_env (\<lambda>k. True)) [] ''http://x/c.gz'' ?st0 =
             Some \<lparr>processed_sitemaps = {''http://x/c.gz''}, all_urls = [], fetched = [''http://x/c.gz'']\<rparr>"
    using gzip_is_decompressed_before_parsing[OF example_request_d(2)[of "\<lambda>k. True"] disjI2[OF sc],
        of "[]" ?st0 0] example_gunzip(2)
    by simp
  note d1 = conjunct1[OF d] and d2 = conjunct2[OF d]
  show ?thesis
    by (intro conjI example_request_d sd sc example_gunzip d1 d2 c)
qed

text \<open>
  C4, as stated, fails on a 4xx response: a URL that answers 404 every time is requested
  three times, with the two waits in between, before \<open>make_request\<close> raises.
\<close>

theorem status_404_is_retried:
  "make_request (example_env (\<lambda>k. True)) ''GET'' ''http://x/b'' None =
     ([Sleep 1, Send ''GET'' ''http://x/b'', Sleep 2,
       Sleep 1, Send ''GET'' ''http://x/b'', Sleep 2,
       Sleep 1, Send ''GET'' ''http://x/b''],
      Inl (RetryError (HTTPError 404)))"
proof -
  have o: "\<And>k. snd (request_once (example_env (\<lambda>k. True)) ''GET'' ''http://x/b'' None k) = Inl (HTTPError 404)"
    by (simp add: example_once example_web_def)
  have r: "retry_if_exception_type (HTTPError 404)" by (simp add: retry_if_exception_type_def)
  have "snd (make_request (example_env (\<lambda>k. True)) ''GET'' ''http://x/b'' None) = Inl (RetryError (HTTPError 404))"
    by (simp add: make_request_result o r)
  moreover have "fst (make_request (example_env (\<lambda>k. True)) ''GET'' ''http://x/b'' None) =
     [Sleep 1, Send ''GET'' ''http://x/b'', Sleep 2,
       Sleep 1, Send ''GET'' ''http://x/b'', Sleep 2,
       Sleep 1, Send ''GET'' ''http://x/b'']"
    by (simp add: make_request_1 fst_retrying_1[OF o r] fst_retrying_2[OF o r]
          fst_retrying_3[OF disjI2[OF o]] example_fst_once)
  ultimately show ?thesis by (simp add: prod_eq_iff)
qed

text \<open>
  C4, amended. \<open>make_request\<close> makes up to three attempts. An attempt that raises a
  request exception (a connection error, a timeout, or the \<open>HTTPError\<close> of
  \<open>raise_for_status\<close> for any status from 400 to 599, a 4xx like a 5xx) or a builtin
  connection or timeout error is followed by a wait and the next attempt: two such
  failures and a response on the third attempt return that response; three such failures
  raise \<open>RetryError\<close>. Only an exception of another type leaves at once, after one
  attempt. The waits after the first and the second attempt are 2 seconds each, and no
  wait of the policy is below 2 or above 10 seconds.
\<close>

theorem make_request_retries:
  "(snd (request_once env m u d 1) = Inl e1 \<and> retry_if_exception_type e1 \<and>
    snd (request_once env m u d 2) = Inl e2 \<and> retry_if_exception_type e2 \<and>
    snd (request_once env m u d 3) = Inr r \<longrightarrow>
      make_request env m u d =
        (fst (request_once env m u d 1) @ [Sleep 2] @ fst (request_once env m u d 2) @ [Sleep 2] @
         fst (request_once env m u d 3), Inr r)) \<and>
   (snd (request_once env m u d 1) = Inl e1 \<and> retry_if_exception_type e1 \<and>
    snd (request_once env m u d 2) = Inl e2 \<and> retry_if_exception_type e2 \<and>
    snd (request_once env m u d 3) = Inl e3 \<and> retry_if_exception_type e3 \<longrightarrow>
      make_request env m u d =
        (fst (request_once env m u d 1) @ [Sleep 2] @ fst (request_once env m u d 2) @ [Sleep 2] @
         fst (request_once env m u d 3), Inl (RetryError e3))) \<and>
   (snd (request_once env m u d 1) = Inl e1 \<and> \<not> retry_if_exception_type e1 \<longrightarrow>
      make_request env m u d = (fst (request_once env m u d 1), Inl e1)) \<and>
   (web env m u k = Responds r \<and> 400 \<le> status_code r \<and> status_code r < 600 \<longrightarrow>
      snd (request_once env m u d k) = Inl (HTTPError (status_code r)) \<and>
      retry_if_exception_type (HTTPError (status_code r))) \<and>
   (web env m u k = Raises e1 \<longrightarrow>
      snd (request_once env m u d k) = Inl e1 \<and>
      (retry_if_exception_type e1 \<longleftrightarrow>
         e1 \<noteq> OtherException \<and> e1 \<noteq> OperationalError \<and> e1 \<noteq> IntegrityError \<and>
         e1 \<noteq> StaleDataError \<and> (\<forall>x. e1 \<noteq> RetryError x))) \<and>
   wait_exponential 1 2 10 1 = 2 \<and> wait_exponential 1 2 10 2 = 2 \<and>
   2 \<le> wait_exponential 1 2 10 k \<and> wait_exponential 1 2 10 k \<le> 10"
proof -
  have n: "(1::nat) = Suc 0" "(2::nat) = Suc (Suc 0)" "(3::nat) = Suc (Suc (Suc 0))"
    by simp_all
  have A: "make_request env m u d =
        (fst (request_once env m u d 1) @ [Sleep 2] @ fst (request_once env m u d 2) @ [Sleep 2] @
         fst (request_once env m u d 3), Inr r)"
    if "snd (request_once env m u d 1) = Inl e1" "retry_if_exception_type e1"
       "snd (request_once env m u d 2) = Inl e2" "retry_if_exception_type e2"
       "snd (request_once env m u d 3) = Inr r"
  proof -
    have "snd (make_request env m u d) = Inr r"
      using that unfolding n by (simp add: make_request_result)
    moreover have "fst (make_request env m u d) =
        fst (request_once env m u d 1) @ [Sleep 2] @ fst (request_once env m u d 2) @ [Sleep 2] @
         fst (request_once env m u d 3)"
      using that unfolding n
      by (simp add: make_request_1 fst_retrying_1 fst_retrying_2 fst_retrying_3)
    ultimately show ?thesis by (simp add: prod_eq_iff)
  qed
  have B: "make_request env m u d =
        (fst (request_once env m u d 1) @ [Sleep 2] @ fst (request_once env m u d 2) @ [Sleep 2] @
         fst (request_once env m u d 3), Inl (RetryError e3))"
    if "snd (request_once env m u d 1) = Inl e1" "retry_if_exception_type e1"
       "snd (request_once env m u d 2) = Inl e2" "retry_if_exception_type e2"
       "snd (request_once env m u d 3) = Inl e3" "retry_if_exception_type e3"
  proof -
    have "snd (make_request env m u d) = Inl (RetryError e3)"
      using that unfolding n by (simp add: make_request_result)
    moreover have "fst (make_request env m u d) =
        fst (request_once env m u d 1) @ [Sleep 2] @ fst (request_once env m u d 2) @ [Sleep 2] @
         fst (request_once env m u d 3)"
      using that unfolding n
      by (simp add: make_request_1 fst_retrying_1 fst_retrying_2 fst_retrying_3)
    ultimately show ?thesis by (simp add: prod_eq_iff)
  qed
  have C: "make_request env m u d = (fst (request_once env m u d 1), Inl e1)"
    if "snd (request_once env m u d 1) = Inl e1" "\<not> retry_if_exception_type e1"
    using that unfolding n by (simp add: make_request_1 fst_retrying_stop)
  have D: "snd (request_once env m u d k) = Inl (HTTPError (status_code r)) \<and>
      retry_if_exception_type (HTTPError (status_code r))"
    if "web env m u k = Responds r" "400 \<le> status_code r" "status_code r < 600"
    using that by (simp add: request_once_def retry_if_exception_type_def)
  have E: "snd (request_once env m u d k) = Inl e1 \<and>
      (retry_if_exception_type e1 \<longleftrightarrow>
         e1 \<noteq> OtherException \<and> e1 \<noteq> OperationalError \<and> e1 \<noteq> IntegrityError \<and>
         e1 \<noteq> StaleDataError \<and> (\<forall>x. e1 \<noteq> RetryError x))"
    if "web env m u k = Raises e1"
    using that by (cases e1) (simp_all add: request_once_def retry_if_exception_type_def)
  have W: "wait_exponential 1 2 10 1 = 2" "wait_exponential 1 2 10 2 = 2"
    by (simp_all add: wait_exponential_def)
  show ?thesis using A B C D E W wait_exponential_bounds[of k] by blast
qed

theorem make_request_retries_witness:
  "make_request (example_env (\<lambda>k. True)) ''GET'' ''http://x/a'' None =
     ([Sleep 1, Send ''GET'' ''http://x/a'', Sleep 2,
       Sleep 1, Send ''GET'' ''http://x/a'', Sleep 2,
       Sleep 1, Send ''GET'' ''http://x/a''],
      Inr \<lparr>status_code = 200, headers = Map.empty, content = ''LEAF''\<rparr>) \<and>
   web (example_env (\<lambda>k. True)) ''GET'' ''http://x/b'' 1 =
     Responds \<lparr>status_code = 404, headers = Map.empty, content = []\<rparr> \<and>
   retry_if_exception_type (HTTPError 404) \<and>
   snd (make_request (example_env (\<lambda>k. True)) ''GET'' ''http://x/b'' None) = Inl (RetryError (HTTPError 404)) \<and>
   web (example_env (\<lambda>k. True)) ''GET'' ''http://x/e'' 1 = Raises OtherException \<and>
   make_request (example_env (\<lambda>k. True)) ''GET'' ''http://x/e'' None =
     ([Sleep 1, Send ''GET'' ''http://x/e''], Inl OtherException)"
proof -
  let ?ok = "\<lparr>status_code = 200, headers = Map.empty, content = ''LEAF''\<rparr>"
  let ?nf = "\<lparr>status_code = 404, headers = Map.empty, content = []\<rparr>"
  have a: "snd (request_once (example_env (\<lambda>k. True)) ''GET'' ''http://x/a'' None 1) = Inl RequestsTimeout"
    "snd (request_once (example_env (\<lambda>k. True)) ''GET'' ''http://x/a'' None 2) = Inl RequestsTimeout"
    "snd (request_once (example_env (\<lambda>k. True)) ''GET'' ''http://x/a'' None 3) = Inr ?ok"
    by (simp_all add: example_once example_web_def ok_response_def)
  have t: "retry_if_exception_type RequestsTimeout" by (simp add: retry_if_exception_type_def)
  have A: "make_request (example_env (\<lambda>k. True)) ''GET'' ''http://x/a'' None =
     ([Sleep 1, Send ''GET'' ''http://x/a'', Sleep 2,
       Sleep 1, Send ''GET'' ''http://x/a'', Sleep 2,
       Sleep 1, Send ''GET'' ''http://x/a''], Inr ?ok)"
    using make_request_retries[of "example_env (\<lambda>k. True)" "''GET''" "''http://x/a''" None RequestsTimeout
        RequestsTimeout ?ok RequestsTimeout 1] a t
    by (simp add: example_fst_once)
  have wb: "web (example_env (\<lambda>k. True)) ''GET'' ''http://x/b'' 1 = Responds ?nf"
    by (simp add: example_env_def example_web_def)
  have b: "\<And>k. snd (request_once (example_env (\<lambda>k. True)) ''GET'' ''http://x/b'' None k) = Inl (HTTPError 404)"
    by (simp add: example_once example_web_def)
  have rb: "retry_if_exception_type (HTTPError 404)"
    using make_request_retries[of "example_env (\<lambda>k. True)" "''GET''" "''http://x/b''" None "HTTPError 404"
        "HTTPError 404" ?nf "HTTPError 404" 1] wb
    by simp
  have B: "snd (make_request (example_env (\<lambda>k. True)) ''GET'' ''http://x/b'' None) = Inl (RetryError (HTTPError 404))"
    using make_request_retries[of "example_env (\<lambda>k. True)" "''GET''" "''http://x/b''" None "HTTPError 404"
        "HTTPError 404" ?nf "HTTPError 404" 1] b rb
    by simp
  have we: "web (example_env (\<lambda>k. True)) ''GET'' ''http://x/e'' 1 = Raises OtherException"
    by (simp add: example_env_def example_web_def)
  have e: "snd (request_once (example_env (\<lambda>k. True)) ''GET'' ''http://x/e'' None 1) = Inl OtherException"
    by (simp add: example_once example_web_def)
  have ne: "\<not> retry_if_exception_type OtherException" by (simp add: retry_if_exception_type_def)
  have E: "make_request (example_env (\<lambda>k. True)) ''GET'' ''http://x/e'' None =
     ([Sleep 1, Send ''GET'' ''http://x/e''], Inl OtherException)"
    using make_request_retries[of "example_env (\<lambda>k. True)" "''GET''" "''http://x/e''" None OtherException
        OtherException ?ok OtherException 1] e ne
    by (simp add: example_fst_once)
  show ?thesis by (intro conjI A wb rb B we E)
qed









text \<open>
  C7, as stated, fails on the times: in a cycle that starts at 100 (the start time of its
  log row) on a clock that moves, the page created for \<open>2\<close> is first discovered at 102
  and last seen at 103, the two readings of the clock taken when its entry is processed.
\<close>

theorem new_page_times_are_not_the_start_time:
  "\<exists>w'. process_site 6 (example_env (\<lambda>k. True)) 1 (Some fresh_session) (Some example_site)
           example_world = Some (Inr (True, Success_found 2, 2), w') \<and>
         map start_time (logs (db w')) = [100] \<and>
         map_option first_discovered_at (pages (db w') (1, ''http://x/2'')) = Some 102 \<and>
         map_option last_seen_at (pages (db w') (1, ''http://x/2'')) = Some 103"
  by (simp add: process_site_def utc_now_def try_block_def get_existing_urls_def query_def
        round_trip_def then_do_def example_site_entries diff_and_commit_def commit_cycle_def
        update_site_last_crawled_def create_crawl_log_def add_def commit_def
        send_new_pages_notification_def first_page_def
        fresh_session_def example_world_def example_env_fields example_site_fields
        example_entries_def example_page_def Let_def)

text \<open>
  C7, amended. For the entries whose URL is not a key of the existing URLs, in their order,
  the diff creates one page each: of the site, with the URL of the entry, no title and the
  processed flag 0; its first-discovered and last-seen times are two successive readings
  of the clock, taken when the entry is processed, so on a clock that does not run
  backwards they are not before the start of the cycle and the first is not after the
  second. The page is added to the session, and when the session held nothing else and
  its commit goes through, the page is in the database as created.
\<close>

theorem new_pages_are_stamped_when_processed:
  assumes "diff_entries env site S E [] w = (Inr new_pages, w1)"
  shows "map page_url new_pages = map url (spec_new S E) \<and>
         added_pages (pending (sess w1)) = added_pages (pending (sess w)) @ new_pages \<and>
         (\<forall>p\<in>set new_pages. created_page env site (ticks w) (ticks w1) p) \<and>
         (pending (sess w) = [] \<and> commit env w1 = (Inr (), w2) \<longrightarrow>
            (\<forall>p\<in>set new_pages. pages (db w2) (site_id site, page_url p) = Some p)) \<and>
         ((\<forall>i j. i \<le> j \<longrightarrow> clock env i \<le> clock env j) \<and> k0 \<le> ticks w \<longrightarrow>
            (\<forall>p\<in>set new_pages. clock env k0 \<le> first_discovered_at p \<and>
                                 first_discovered_at p \<le> last_seen_at p))"
proof -
  from diff_entries_Inr[OF assms] obtain new where
    n: "new_pages = [] @ new" "map page_url new = map url (spec_new S E)"
       "added_pages (pending (sess w1)) = added_pages (pending (sess w)) @ new"
       "\<forall>p\<in>set new. created_page env site (ticks w) (ticks w1) p"
    by blast
  have 1: "map page_url new_pages = map url (spec_new S E)" using n by simp
  have 2: "added_pages (pending (sess w1)) = added_pages (pending (sess w)) @ new_pages"
    using n by simp
  have 3: "\<forall>p\<in>set new_pages. created_page env site (ticks w) (ticks w1) p" using n by simp
  have 4: "\<forall>p\<in>set new_pages. pages (db w2) (site_id site, page_url p) = Some p"
    if e: "pending (sess w) = []" and c: "commit env w1 = (Inr (), w2)"
  proof
    fix p assume p: "p \<in> set new_pages"
    from diff_entries_staged[OF assms] e obtain cs where
      cs: "pending (sess w1) = cs" "\<forall>c\<in>set cs. staged_by_diff env site S (ticks w) (ticks w1) c"
      by auto
    from commit_cases[OF c] cs(1) have a: "apply_changes cs (db w1) = Inr (db w2)" by auto
    have pa: "p \<in> set (added_pages cs)" using 2 e cs(1) p by simp
    have ps: "monitored_site_id p = site_id site" using 3 p by (auto simp: created_page_def)
    have "page_url p \<in> set (map url (spec_new S E))" using 1 p by (metis image_eqI set_map)
    then have nd: "page_url p \<notin> dom S" by (auto simp: spec_new_def)
    have "\<forall>c\<in>set cs. \<forall>t. c \<noteq> Set_last_seen (monitored_site_id p) (page_url p) t"
      using cs(2) nd by (auto simp: staged_by_diff_def)
    from apply_changes_added[OF a pa this] ps
    show "pages (db w2) (site_id site, page_url p) = Some p" by simp
  qed
  have 5: "\<forall>p\<in>set new_pages. clock env k0 \<le> first_discovered_at p \<and>
                                 first_discovered_at p \<le> last_seen_at p"
    if m: "\<forall>i j. i \<le> j \<longrightarrow> clock env i \<le> clock env j" and k: "k0 \<le> ticks w"
  proof
    fix p assume "p \<in> set new_pages"
    with 3 obtain k where
      "ticks w \<le> k" "first_discovered_at p = clock env k" "last_seen_at p = clock env (Suc k)"
      by (auto simp: created_page_def)
    with m k show "clock env k0 \<le> first_discovered_at p \<and>
                                 first_discovered_at p \<le> last_seen_at p"
      by (metis le_trans le_SucI order_refl)
  qed
  show ?thesis using 1 2 3 4 5 by blast
qed

theorem new_pages_are_stamped_when_processed_witness:
  "\<exists>new_pages w1.
     diff_entries (example_env (\<lambda>k. True)) example_site [''http://x/1'' \<mapsto> 50]
       example_entries [] example_world = (Inr new_pages, w1) \<and>
     map page_url new_pages = [''http://x/2'', ''http://x/3''] \<and>
     added_pages (pending (sess w1)) = new_pages \<and>
     list_all (created_page (example_env (\<lambda>k. True)) example_site 0 (ticks w1)) new_pages \<and>
     list_all (\<lambda>p. 100 \<le> first_discovered_at p \<and> first_discovered_at p \<le> last_seen_at p)
       new_pages"
proof -
  let ?env = "example_env (\<lambda>k. True)"
  let ?S = "[''http://x/1'' \<mapsto> (50::int)]"
  have "\<forall>k. db_ok ?env k" by (simp add: example_env_fields)
  from diff_entries_no_fault[OF this] obtain new_pages w1 where
    d: "diff_entries ?env example_site ?S example_entries [] example_world = (Inr new_pages, w1)"
    by blast
  note t = new_pages_are_stamped_when_processed[OF d, of w1 0]
  have n: "spec_new ?S example_entries =
     [\<lparr>url = ''http://x/2'', lastmod = None\<rparr>, \<lparr>url = ''http://x/3'', lastmod = None\<rparr>]"
    by (simp add: spec_new_def example_entries_def)
  have m: "\<forall>i j. i \<le> j \<longrightarrow> clock ?env i \<le> clock ?env j" by (simp add: example_env_fields)
  have z: "ticks example_world = 0" "pending (sess example_world) = []"
    by (simp_all add: example_world_def fresh_session_def)
  have c0: "clock ?env 0 = 100" by (simp add: example_env_fields)
  have 1: "map page_url new_pages = [''http://x/2'', ''http://x/3'']" using t n by simp
  have 2: "added_pages (pending (sess w1)) = new_pages" using t z by simp
  have 3: "list_all (created_page ?env example_site 0 (ticks w1)) new_pages"
    using t z by (simp add: list_all_iff)
  have 4: "list_all (\<lambda>p. 100 \<le> first_discovered_at p \<and> first_discovered_at p \<le> last_seen_at p)
       new_pages"
    using t m z c0 by (simp add: list_all_iff)
  show ?thesis by (intro exI[of _ new_pages] exI[of _ w1] conjI d 1 2 3 4)
qed

text \<open>
  C8 on a sitemap that lists a URL twice, in a database that has the page \<open>1\<close> and not
  the page \<open>2\<close>: the loop takes both entries of \<open>2\<close> for new, the commit of the two
  pages breaks the unique constraint, and nothing is written, the refreshed
  \<open>last_seen_at\<close> of \<open>1\<close> included. The second run on the same content finds the same
  two new pages and fails in the same way; \<open>1\<close> is still last seen at 50.
\<close>

theorem duplicate_url_is_new_on_both_runs:
  "\<exists>w0 new1 w1 w2 new2 w3 w4.
     diff_entries (example_env (\<lambda>k. True)) example_site [''http://x/1'' \<mapsto> 50]
       example_duplicates [] example_world = (Inr new1, w0) \<and>
     map page_url new1 = [''http://x/2'', ''http://x/2''] \<and>
     run_diff (example_env (\<lambda>k. True)) example_site example_duplicates example_world =
       (Inl IntegrityError, w1) \<and>
     db w1 = db example_world \<and>
     get_existing_urls (example_env (\<lambda>k. True)) 1 (w1\<lparr>sess := fresh_session\<rparr>) =
       (Inr [''http://x/1'' \<mapsto> 50], w2) \<and>
     diff_entries (example_env (\<lambda>k. True)) example_site [''http://x/1'' \<mapsto> 50]
       example_duplicates [] w2 = (Inr new2, w3) \<and>
     map page_url new2 = [''http://x/2'', ''http://x/2''] \<and>
     run_diff (example_env (\<lambda>k. True)) example_site example_duplicates w1 =
       (Inl IntegrityError, w4) \<and>
     db w4 = db example_world \<and>
     map_option last_seen_at (pages (db w4) (1, ''http://x/1'')) = Some 50"
proof -
  have S: "(\<lambda>u. map_option last_seen_at
              (if u = ''http://x/1'' then Some example_page else None)) =
           [''http://x/1'' \<mapsto> 50]"
    by (rule ext) (simp add: example_page_def)
  show ?thesis
    by (simp add: run_diff_def get_existing_urls_def query_def first_page_def
        round_trip_def then_do_def commit_cycle_def
        update_site_last_crawled_def add_def commit_def utc_now_def
        fresh_session_def example_world_def example_env_fields example_site_fields
        example_duplicates_def Let_def S)
     (simp add: example_page_def)
qed

end
